theory Spec2Isabelle
  imports Complex_Main "HOL-Library.Log_Nat"
begin

section \<open>Data model (src/types.ts)\<close>

text \<open>
  A JavaScript \<^verbatim>\<open>string\<close> is a sequence of UTF-16 code units. A code unit is its number
  (below \<open>2 ^ 16\<close>; nothing below depends on the bound), so that a string holds any
  character of Unicode, the ones outside the basic plane as two code units. \<open>str\<close> gives
  the code units of a string that is written here in ASCII.
\<close>

type_synonym JSString = "nat list"

definition str :: "string \<Rightarrow> JSString" where
  "str s = map of_char s"

text \<open>
  The two tip interfaces of \<^verbatim>\<open>types.ts\<close> have the same three fields and differ in the
  union type of \<^verbatim>\<open>status\<close>; they are one record, polymorphic in the status type.
  The \<^verbatim>\<open>number\<close> fields hold counts and are integers.
\<close>

datatype SearchabilityStatus = S_pass | S_fail | S_info

datatype RecruiterStatus = R_pass | R_warning | R_info

record 'st Tip =
  name :: JSString
  status :: 'st
  message :: JSString

type_synonym SearchabilityTip = "SearchabilityStatus Tip"

type_synonym RecruiterTip = "RecruiterStatus Tip"

record Skill =
  skill :: JSString
  resumeCount :: int
  jdCount :: int

text \<open>
  \<^verbatim>\<open>Report\<close>: four sections, each an \<^verbatim>\<open>issues\<close> number and an array. The nested
  objects \<^verbatim>\<open>report.searchability.tips\<close> and so on are flattened into one record, the
  field \<^verbatim>\<open>a.b\<close> written \<open>a_b\<close>. The record is polymorphic in what the arrays hold: the
  objects themselves (a \<open>Report\<close>, the value of an object graph) or references into a
  store (a \<open>ReportRef\<close>, see below).
\<close>

record ('t, 's, 'r) Report_of =
  searchability_issues :: int
  searchability_tips :: "'t list"
  hardSkills_issues :: int
  hardSkills_skills :: "'s list"
  softSkills_issues :: int
  softSkills_skills :: "'s list"
  recruiterTips_issues :: int
  recruiterTips_tips :: "'r list"

type_synonym Report = "(SearchabilityTip, Skill, RecruiterTip) Report_of"

section \<open>JavaScript numbers\<close>

text \<open>
  A JavaScript \<^verbatim>\<open>number\<close> is an IEEE 754 binary64 value. The finite ones are rationals
  \<open>m * 2 ^ e\<close> with \<open>\<bar>m\<bar> < 2 ^ 53\<close>; each arithmetic operation returns the exact result
  rounded to the nearest such value, ties going to the even significand. \<open>double x\<close> is
  that rounding with an unbounded exponent: it is the IEEE result wherever there is
  neither overflow nor underflow, which is the case for every value of the scoring code
  (they lie between \<open>2 ^ - 40\<close> and \<open>128\<close>, or are \<open>0\<close>, for arrays of fewer than
  \<open>2 ^ 32\<close> elements, the most a JavaScript array can hold).
\<close>

definition ilog2 :: "rat \<Rightarrow> int" where
  \<comment> \<open>for \<open>0 < x\<close>, the exponent \<open>k\<close> with \<open>2 ^ k \<le> x < 2 ^ (k + 1)\<close>\<close>
  "ilog2 x = (if 1 \<le> x then int (floorlog 2 (nat \<lfloor>x\<rfloor>)) - 1
              else - int (floorlog 2 (nat (\<lceil>1 / x\<rceil> - 1))))"

definition round_half_even :: "rat \<Rightarrow> int" where
  "round_half_even y =
     (let f = \<lfloor>y\<rfloor>; d = y - of_int f
      in if d < 1 / 2 then f else if 1 / 2 < d then f + 1 else if even f then f else f + 1)"

definition double_pos :: "rat \<Rightarrow> rat" where
  \<comment> \<open>for \<open>0 < x\<close>: scale into \<open>[2 ^ 52, 2 ^ 53)\<close>, round to an integer, scale back\<close>
  "double_pos x =
     (let e = ilog2 x - 52 in of_int (round_half_even (x * 2 powi (- e))) * 2 powi e)"

definition double :: "rat \<Rightarrow> rat" where
  "double x = (if x = 0 then 0 else if 0 < x then double_pos x else - double_pos (- x))"

definition number_add :: "rat \<Rightarrow> rat \<Rightarrow> rat" where
  "number_add a b = double (a + b)"

definition number_mul :: "rat \<Rightarrow> rat \<Rightarrow> rat" where
  "number_mul a b = double (a * b)"

definition number_div :: "rat \<Rightarrow> rat \<Rightarrow> rat" where
  \<comment> \<open>used with a non-zero divisor only\<close>
  "number_div a b = double (a / b)"

definition Math_round :: "rat \<Rightarrow> int" where
  \<comment> \<open>the nearest integer, a tie going up (towards \<open>+\<infinity>\<close>)\<close>
  "Math_round x = \<lfloor>x + 1 / 2\<rfloor>"

section \<open>Scoring (src/components/ResultsStep.tsx)\<close>

text \<open>The decimal literals of \<^verbatim>\<open>WEIGHTS\<close> denote the nearest doubles.\<close>

definition WEIGHTS_searchability :: rat where
  "WEIGHTS_searchability = double (30 / 100)"

definition WEIGHTS_hardSkills :: rat where
  "WEIGHTS_hardSkills = double (45 / 100)"

definition WEIGHTS_softSkills :: rat where
  "WEIGHTS_softSkills = double (10 / 100)"

definition WEIGHTS_recruiterTips :: rat where
  "WEIGHTS_recruiterTips = double (15 / 100)"

definition calculateScore :: "Report \<Rightarrow> int" where
  "calculateScore report =
     (let totalSearchability = length (searchability_tips report);
          passedSearchability =
            length (filter (\<lambda>t. status t = S_pass \<or> status t = S_info) (searchability_tips report));
          searchabilityScore =
            (if totalSearchability > 0
             then number_div (of_nat passedSearchability) (of_nat totalSearchability) else 1);
          totalHardSkills = length (hardSkills_skills report);
          foundHardSkills = length (filter (\<lambda>s. resumeCount s \<noteq> - 1) (hardSkills_skills report));
          hardSkillsScore =
            (if totalHardSkills > 0
             then number_div (of_nat foundHardSkills) (of_nat totalHardSkills) else 1);
          totalSoftSkills = length (softSkills_skills report);
          foundSoftSkills = length (filter (\<lambda>s. resumeCount s \<noteq> - 1) (softSkills_skills report));
          softSkillsScore =
            (if totalSoftSkills > 0
             then number_div (of_nat foundSoftSkills) (of_nat totalSoftSkills) else 1);
          totalRecruiterTips = length (recruiterTips_tips report);
          passedRecruiterTips =
            length (filter (\<lambda>t. status t = R_pass \<or> status t = R_info) (recruiterTips_tips report));
          recruiterTipsScore =
            (if totalRecruiterTips > 0
             then number_div (of_nat passedRecruiterTips) (of_nat totalRecruiterTips) else 1);
          finalScore =
            number_add
              (number_add
                (number_add
                  (number_mul searchabilityScore WEIGHTS_searchability)
                  (number_mul hardSkillsScore WEIGHTS_hardSkills))
                (number_mul softSkillsScore WEIGHTS_softSkills))
              (number_mul recruiterTipsScore WEIGHTS_recruiterTips)
      in Math_round (number_mul finalScore 100))"

datatype color = green | yellow | red

definition getScoreColor :: "int \<Rightarrow> color" where
  "getScoreColor score = (if score \<ge> 90 then green else if score \<ge> 75 then yellow else red)"

section \<open>Strings and regular expressions\<close>

text \<open>
  The character tables of the Unicode standard belong to the JavaScript engine, not to
  this repository. On ASCII they are written out here: the letters \<^verbatim>\<open>a-z\<close> and \<^verbatim>\<open>A-Z\<close>
  are each other's upper and lower case, and no other ASCII character has a case.
  Outside ASCII the tables are a parameter \<open>U\<close> of the functions that use them, and
  nothing is assumed of it: \<open>unicode_upper U c\<close> is the upper case of the string made of
  the one code unit \<open>c\<close>, \<open>unicode_lower U s\<close> is the lower case of the string \<open>s\<close> (it
  can differ from \<open>s\<close> in length), and \<open>unicode_word U c\<close> says that \<open>c\<close> is one of the
  characters words are written with (a letter, a mark or a digit). What is proved with a
  variable \<open>U\<close> holds for every such table, the one of the engine among them.

  \<^verbatim>\<open>toLowerCase\<close> maps a string by the lower-case table: character by character when
  the string is ASCII, and as a whole by \<open>unicode_lower U\<close> when it holds a character
  outside ASCII (the lower case of such a character can depend on its neighbours and can
  be longer than it). The \<^verbatim>\<open>i\<close> flag of a regular expression without the \<^verbatim>\<open>u\<close> flag
  compares two code units by \<open>Canonicalize\<close>: the upper case of the code unit as a
  one-character string if that is again one code unit, the code unit itself otherwise,
  and also when it is outside ASCII and its upper case inside.
\<close>

record unicode =
  unicode_upper :: "nat \<Rightarrow> JSString"
  unicode_lower :: "JSString \<Rightarrow> JSString"
  unicode_word :: "nat \<Rightarrow> bool"

definition backslash :: nat where
  "backslash = of_char (CHR 0x5C)"

definition isASCII :: "nat \<Rightarrow> bool" where
  "isASCII c = (c < 128)"

text \<open>
  A word character, as \<^verbatim>\<open>\b\<close> sees it in a regular expression without the \<^verbatim>\<open>u\<close> flag,
  is one of \<^verbatim>\<open>A-Z a-z 0-9 _\<close>, whatever the Unicode tables say.
\<close>

definition isWordChar :: "nat \<Rightarrow> bool" where
  "isWordChar n =
     ((48 \<le> n \<and> n \<le> 57) \<or> (65 \<le> n \<and> n \<le> 90) \<or> n = 95 \<or> (97 \<le> n \<and> n \<le> 122))"

definition toUpper :: "nat \<Rightarrow> nat" where
  \<comment> \<open>the upper case of an ASCII character\<close>
  "toUpper n = (if 97 \<le> n \<and> n \<le> 122 then n - 32 else n)"

definition toLower :: "nat \<Rightarrow> nat" where
  \<comment> \<open>the lower case of an ASCII character\<close>
  "toLower n = (if 65 \<le> n \<and> n \<le> 90 then n + 32 else n)"

definition toLowerCase :: "unicode \<Rightarrow> JSString \<Rightarrow> JSString" where
  \<comment> \<open>\<^verbatim>\<open>String.prototype.toLowerCase\<close>\<close>
  "toLowerCase U s = (if list_all isASCII s then map toLower s else unicode_lower U s)"

definition Canonicalize :: "unicode \<Rightarrow> nat \<Rightarrow> nat" where
  "Canonicalize U ch =
     (if isASCII ch then toUpper ch
      else (case unicode_upper U ch of
              [cu] \<Rightarrow> if isASCII cu then ch else cu
            | _ \<Rightarrow> ch))"

definition substring :: "JSString \<Rightarrow> nat \<Rightarrow> nat \<Rightarrow> JSString" where
  "substring s i j = take (j - i) (drop i s)"

fun Array_join :: "JSString \<Rightarrow> JSString list \<Rightarrow> JSString" where
  "Array_join sep [] = []"
| "Array_join sep [x] = x"
| "Array_join sep (x # y # ys) = x @ sep @ Array_join sep (y # ys)"

text \<open>
  \<^verbatim>\<open>s.replace(/[.*+?^${}()|[\]\\]/g, '\\$&')\<close>: every character of the class is
  replaced by a backslash followed by itself.
\<close>

definition escapeClass :: "nat list" where
  "escapeClass = str ''.*+?^${}()|[]'' @ [backslash]"

definition escapeRegExp :: "JSString \<Rightarrow> JSString" where
  "escapeRegExp s = concat (map (\<lambda>c. if c \<in> set escapeClass then [backslash, c] else [c]) s)"

text \<open>
  The patterns the code builds are read by \<^verbatim>\<open>new RegExp\<close>. The model reads the part of
  the pattern language these patterns are written in: literal characters, a syntax
  character escaped by a backslash, the assertion \<^verbatim>\<open>\b\<close>, and a capturing group of
  alternatives made of these. \<open>RegExp_new\<close> is \<open>None\<close> on every other pattern: one that
  \<^verbatim>\<open>new RegExp\<close> rejects with a SyntaxError (a trailing backslash, an unclosed group),
  or one that uses pattern syntax outside this part (quantifiers, classes, other
  escapes), whose meaning is not modelled.
\<close>

definition SyntaxCharacter :: "nat \<Rightarrow> bool" where
  "SyntaxCharacter c = (c \<in> set (str ''^$'' @ [backslash] @ str ''.*+?()[]{}|''))"

datatype atom = Chr nat | WordB

datatype tok = TAtom atom | TOpen | TBar | TClose

datatype node = Atom atom | Group "atom list list"

fun lex :: "JSString \<Rightarrow> tok list option" where
  "lex [] = Some []"
| "lex (c # cs) =
     (if c = backslash then
        (case cs of
           [] \<Rightarrow> None
         | d # ds \<Rightarrow>
             if d = of_char (CHR ''b'') then map_option ((#) (TAtom WordB)) (lex ds)
             else if SyntaxCharacter d then map_option ((#) (TAtom (Chr d))) (lex ds)
             else None)
      else if c = of_char (CHR ''('') then map_option ((#) TOpen) (lex cs)
      else if c = of_char (CHR '')'') then map_option ((#) TClose) (lex cs)
      else if c = of_char (CHR ''|'') then map_option ((#) TBar) (lex cs)
      else if SyntaxCharacter c then None
      else map_option ((#) (TAtom (Chr c))) (lex cs))"

fun atoms_of :: "tok list \<Rightarrow> atom list option" where
  "atoms_of [] = Some []"
| "atoms_of (TAtom a # ts) = map_option ((#) a) (atoms_of ts)"
| "atoms_of (_ # ts) = None"

fun split_bar :: "tok list \<Rightarrow> tok list list" where
  "split_bar [] = [[]]"
| "split_bar (t # ts) =
     (if t = TBar then [] # split_bar ts
      else (case split_bar ts of [] \<Rightarrow> [[t]] | x # xs \<Rightarrow> (t # x) # xs))"

function parse :: "tok list \<Rightarrow> node list option" where
  "parse [] = Some []"
| "parse (TAtom a # ts) = map_option ((#) (Atom a)) (parse ts)"
| "parse (TOpen # ts) =
     (case dropWhile (\<lambda>t. t \<noteq> TClose) ts of
        [] \<Rightarrow> None
      | _ # rest \<Rightarrow>
          (case those (map atoms_of (split_bar (takeWhile (\<lambda>t. t \<noteq> TClose) ts))) of
             None \<Rightarrow> None
           | Some alts \<Rightarrow> map_option ((#) (Group alts)) (parse rest)))"
| "parse (TBar # ts) = None"
| "parse (TClose # ts) = None"
  by pat_completeness auto
termination
proof (relation "measure length")
  fix ts :: "tok list" and x rest xa
  assume "dropWhile (\<lambda>t. t \<noteq> TClose) ts = x # rest"
  then have "Suc (length rest) \<le> length ts"
    using length_dropWhile_le[of "\<lambda>t. t \<noteq> TClose" ts] by simp
  then show "(rest, TOpen # ts) \<in> measure length" by simp
qed simp_all

definition RegExp_new :: "JSString \<Rightarrow> node list option" where
  "RegExp_new pattern = (case lex pattern of None \<Rightarrow> None | Some ts \<Rightarrow> parse ts)"

text \<open>
  Matching, with the \<^verbatim>\<open>i\<close> flag (both patterns of the code have it). \<open>wordBoundary s i\<close>
  is the assertion \<^verbatim>\<open>\b\<close> at index \<open>i\<close>: exactly one of the characters before and at
  \<open>i\<close> is a word character, a missing character not being one. \<open>match_nodes\<close> lists the
  ways the pattern matches from index \<open>i\<close>, in the order backtracking tries them: the end
  index and the captured substrings.
\<close>

definition wordBoundary :: "JSString \<Rightarrow> nat \<Rightarrow> bool" where
  "wordBoundary s i =
     (let a = (0 < i \<and> i - 1 < length s \<and> isWordChar (s ! (i - 1)));
          b = (i < length s \<and> isWordChar (s ! i))
      in a \<noteq> b)"

fun match_atoms :: "unicode \<Rightarrow> atom list \<Rightarrow> JSString \<Rightarrow> nat \<Rightarrow> nat option" where
  "match_atoms U [] s i = Some i"
| "match_atoms U (Chr c # as) s i =
     (if i < length s \<and> Canonicalize U (s ! i) = Canonicalize U c then match_atoms U as s (i + 1)
      else None)"
| "match_atoms U (WordB # as) s i = (if wordBoundary s i then match_atoms U as s i else None)"

fun match_nodes :: "unicode \<Rightarrow> node list \<Rightarrow> JSString \<Rightarrow> nat \<Rightarrow> (nat \<times> JSString list) list" where
  "match_nodes U [] s i = [(i, [])]"
| "match_nodes U (Atom a # ns) s i =
     (case match_atoms U [a] s i of None \<Rightarrow> [] | Some j \<Rightarrow> match_nodes U ns s j)"
| "match_nodes U (Group alts # ns) s i =
     concat (map (\<lambda>alt. case match_atoms U alt s i of
                          None \<Rightarrow> []
                        | Some j \<Rightarrow> map (\<lambda>(e, caps). (e, substring s i j # caps)) (match_nodes U ns s j))
                 alts)"

text \<open>
  \<^verbatim>\<open>RegExp.prototype.exec\<close> searches from \<open>i\<close> (0, or \<^verbatim>\<open>lastIndex\<close> for a global
  regular expression) for the first index with a match, up to the end of the string.
\<close>

function search_from ::
  "unicode \<Rightarrow> node list \<Rightarrow> JSString \<Rightarrow> nat \<Rightarrow> (nat \<times> nat \<times> JSString list) option" where
  "search_from U re s i =
     (if length s < i then None
      else (case match_nodes U re s i of
              [] \<Rightarrow> search_from U re s (i + 1)
            | (e, caps) # _ \<Rightarrow> Some (i, e, caps)))"
  by pat_completeness auto
termination
  by (relation "measure (\<lambda>(U, re, s, i). length s + 1 - i)") auto

declare search_from.simps [simp del]

definition RegExp_test :: "unicode \<Rightarrow> node list \<Rightarrow> JSString \<Rightarrow> bool" where
  \<comment> \<open>\<^verbatim>\<open>test\<close> of a regular expression without the \<^verbatim>\<open>g\<close> flag\<close>
  "RegExp_test U re s = (search_from U re s 0 \<noteq> None)"

definition RegExp_test_global :: "unicode \<Rightarrow> node list \<Rightarrow> nat \<Rightarrow> JSString \<Rightarrow> bool \<times> nat" where
  \<comment> \<open>\<^verbatim>\<open>test\<close> with the \<^verbatim>\<open>g\<close> flag: takes \<^verbatim>\<open>lastIndex\<close> and returns the new one\<close>
  "RegExp_test_global U re lastIndex s =
     (case search_from U re s lastIndex of None \<Rightarrow> (False, 0) | Some (i, e, caps) \<Rightarrow> (True, e))"

section \<open>The optimized score: objects in a store\<close>

text \<open>
  \<^verbatim>\<open>calculateOptimizedScore\<close> writes to fields of objects, so objects live in a store and
  arrays hold references. A reference is an index into the list of the objects of its
  type; allocation appends. The store holds the objects the code writes to (skills and
  tips); the report object, its four section objects and their arrays are never written
  to, and are the record \<open>ReportRef\<close> of their contents.
\<close>

record heap =
  skillObjs :: "Skill list"
  searchabilityTipObjs :: "SearchabilityTip list"
  recruiterTipObjs :: "RecruiterTip list"

type_synonym ReportRef = "(nat, nat, nat) Report_of"

definition wf_report :: "heap \<Rightarrow> ReportRef \<Rightarrow> bool" where
  \<comment> \<open>every reference of the report points to an object of the store\<close>
  "wf_report h r =
     (list_all (\<lambda>a. a < length (searchabilityTipObjs h)) (searchability_tips r) \<and>
      list_all (\<lambda>a. a < length (skillObjs h)) (hardSkills_skills r) \<and>
      list_all (\<lambda>a. a < length (skillObjs h)) (softSkills_skills r) \<and>
      list_all (\<lambda>a. a < length (recruiterTipObjs h)) (recruiterTips_tips r))"

definition deref :: "heap \<Rightarrow> ReportRef \<Rightarrow> Report" where
  \<comment> \<open>the report as \<^verbatim>\<open>calculateScore\<close> reads it through the references\<close>
  "deref h r =
     \<lparr>searchability_issues = searchability_issues r,
      searchability_tips = map (\<lambda>a. searchabilityTipObjs h ! a) (searchability_tips r),
      hardSkills_issues = hardSkills_issues r,
      hardSkills_skills = map (\<lambda>a. skillObjs h ! a) (hardSkills_skills r),
      softSkills_issues = softSkills_issues r,
      softSkills_skills = map (\<lambda>a. skillObjs h ! a) (softSkills_skills r),
      recruiterTips_issues = recruiterTips_issues r,
      recruiterTips_tips = map (\<lambda>a. recruiterTipObjs h ! a) (recruiterTips_tips r)\<rparr>"

text \<open>
  \<^verbatim>\<open>JSON.parse(JSON.stringify(report))\<close>: a new object for every element of the four
  arrays, with the fields of the element it copies, and new arrays of the new references.
\<close>

definition JSON_copy :: "heap \<Rightarrow> ReportRef \<Rightarrow> ReportRef \<times> heap" where
  "JSON_copy h r =
     (let nt = length (searchabilityTipObjs h);
          ns = length (skillObjs h);
          nr = length (recruiterTipObjs h);
          lt = length (searchability_tips r);
          lh = length (hardSkills_skills r);
          ls = length (softSkills_skills r);
          lr = length (recruiterTips_tips r)
      in (\<lparr>searchability_issues = searchability_issues r,
           searchability_tips = [nt ..< nt + lt],
           hardSkills_issues = hardSkills_issues r,
           hardSkills_skills = [ns ..< ns + lh],
           softSkills_issues = softSkills_issues r,
           softSkills_skills = [ns + lh ..< ns + lh + ls],
           recruiterTips_issues = recruiterTips_issues r,
           recruiterTips_tips = [nr ..< nr + lr]\<rparr>,
          \<lparr>skillObjs =
             skillObjs h @ map (\<lambda>a. skillObjs h ! a) (hardSkills_skills r)
                         @ map (\<lambda>a. skillObjs h ! a) (softSkills_skills r),
           searchabilityTipObjs =
             searchabilityTipObjs h @ map (\<lambda>a. searchabilityTipObjs h ! a) (searchability_tips r),
           recruiterTipObjs =
             recruiterTipObjs h @ map (\<lambda>a. recruiterTipObjs h ! a) (recruiterTips_tips r)\<rparr>))"

definition skillPattern :: "JSString \<Rightarrow> JSString" where
  \<comment> \<open>the template literal of the skill loops: \<^verbatim>\<open>\b\<close>, the escaped name, \<^verbatim>\<open>\b\<close>\<close>
  "skillPattern sk = backslash # str ''b'' @ escapeRegExp sk @ backslash # str ''b''"

text \<open>
  The two \<^verbatim>\<open>forEach\<close> loops over the skills of the copy have the same body. \<open>None\<close>: the
  loop is left by an exception of \<^verbatim>\<open>new RegExp\<close>.
\<close>

fun forEach_skill :: "unicode \<Rightarrow> nat list \<Rightarrow> JSString \<Rightarrow> heap \<Rightarrow> heap option" where
  "forEach_skill U [] optimizedResumeLower h = Some h"
| "forEach_skill U (a # as) optimizedResumeLower h =
     (let sk = skillObjs h ! a
      in if resumeCount sk = - 1 then
           (case RegExp_new (skillPattern (skill sk)) of
              None \<Rightarrow> None
            | Some skillRegex \<Rightarrow>
                if RegExp_test U skillRegex optimizedResumeLower
                then forEach_skill U as optimizedResumeLower
                       (h\<lparr>skillObjs := (skillObjs h)[a := sk\<lparr>resumeCount := 1\<rparr>]\<rparr>)
                else forEach_skill U as optimizedResumeLower h)
         else forEach_skill U as optimizedResumeLower h)"

fun forEach_searchabilityTip :: "nat list \<Rightarrow> heap \<Rightarrow> heap" where
  "forEach_searchabilityTip [] h = h"
| "forEach_searchabilityTip (a # as) h =
     forEach_searchabilityTip as
       (h\<lparr>searchabilityTipObjs :=
            (searchabilityTipObjs h)[a := (searchabilityTipObjs h ! a)\<lparr>status := S_pass\<rparr>]\<rparr>)"

fun forEach_recruiterTip :: "nat list \<Rightarrow> heap \<Rightarrow> heap" where
  "forEach_recruiterTip [] h = h"
| "forEach_recruiterTip (a # as) h =
     forEach_recruiterTip as
       (h\<lparr>recruiterTipObjs :=
            (recruiterTipObjs h)[a := (recruiterTipObjs h ! a)\<lparr>status := R_pass\<rparr>]\<rparr>)"

definition calculateOptimizedScore ::
  "unicode \<Rightarrow> heap \<Rightarrow> ReportRef \<Rightarrow> JSString \<Rightarrow> (int \<times> heap) option" where
  \<comment> \<open>the score and the store the call leaves; \<open>None\<close>: the call throws\<close>
  "calculateOptimizedScore U h report optimizedResume =
     (let (optimizedReport, h1) = JSON_copy h report;
          optimizedResumeLower = toLowerCase U optimizedResume
      in case forEach_skill U (hardSkills_skills optimizedReport) optimizedResumeLower h1 of
           None \<Rightarrow> None
         | Some h2 \<Rightarrow>
             (case forEach_skill U (softSkills_skills optimizedReport) optimizedResumeLower h2 of
                None \<Rightarrow> None
              | Some h3 \<Rightarrow>
                  (let h4 = forEach_searchabilityTip (searchability_tips optimizedReport) h3;
                       h5 = forEach_recruiterTip (recruiterTips_tips optimizedReport) h4
                   in Some (calculateScore (deref h5 optimizedReport), h5))))"

section \<open>The keyword highlighter\<close>

text \<open>
  \<^verbatim>\<open>text.split(regex)\<close> on a non-empty string: from \<open>p\<close>, the end of the last match,
  the index \<open>q\<close> moves right until the pattern matches at \<open>q\<close> with an end \<open>e\<close> other than
  \<open>p\<close>; the text from \<open>p\<close> to \<open>q\<close> and the captures are appended, and the search goes on
  from \<open>e\<close>. No match is tried at the end of the string.
\<close>

function String_split_loop ::
  "unicode \<Rightarrow> node list \<Rightarrow> JSString \<Rightarrow> nat \<Rightarrow> nat \<Rightarrow> JSString list" where
  "String_split_loop U re s p q =
     (if q < length s then
        (case match_nodes U re s q of
           [] \<Rightarrow> String_split_loop U re s p (q + 1)
         | (e', caps) # _ \<Rightarrow>
             (let e = min e' (length s)
              in if e = p then String_split_loop U re s p (q + 1)
                 else substring s p q # caps @ String_split_loop U re s e e))
      else [substring s p (length s)])"
  by pat_completeness auto

lemma match_atoms_le: "match_atoms U as s i = Some j \<Longrightarrow> i \<le> j"
proof (induction U as s i rule: match_atoms.induct)
  case (2 U c as s i)
  then show ?case by (fastforce split: if_splits)
qed (auto split: if_splits)

lemma match_nodes_le: "(e, caps) \<in> set (match_nodes U ns s i) \<Longrightarrow> i \<le> e"
proof (induction U ns s i arbitrary: e caps rule: match_nodes.induct)
  case (1 U s i)
  then show ?case by simp
next
  case (2 U a ns s i)
  from "2.prems" obtain j where
    j: "match_atoms U [a] s i = Some j" and m: "(e, caps) \<in> set (match_nodes U ns s j)"
    by (cases "match_atoms U [a] s i") auto
  from "2.IH"[OF j m] match_atoms_le[OF j] show ?case by simp
next
  case (3 U alts ns s i)
  from "3.prems" obtain alt j e0 caps0 where
    alt: "alt \<in> set alts" and j: "match_atoms U alt s i = Some j"
    and m: "(e0, caps0) \<in> set (match_nodes U ns s j)" and e: "e = e0"
    by (auto split: option.splits) metis
  from "3.IH"[OF alt j m] match_atoms_le[OF j] e show ?case by simp
qed

termination String_split_loop
proof (relation "measure (\<lambda>(U, re, s, p, q). 2 * (length s - q) + (if p = q then 0 else 1))")
  fix U :: unicode and re :: "node list" and s :: JSString and p q :: nat and x21 x22 e' caps xa
  assume q: "q < length s" and m: "match_nodes U re s q = x21 # x22" and x: "(e', caps) = x21"
    and xa: "xa = min e' (length s)" and ne: "xa \<noteq> p"
  have "(e', caps) \<in> set (match_nodes U re s q)" using m x by simp
  then have "q \<le> e'" by (rule match_nodes_le)
  then have "q \<le> xa" using q xa by simp
  then show "((U, re, s, xa, xa), U, re, s, p, q)
      \<in> measure (\<lambda>(U, re, s, p, q). 2 * (length s - q) + (if p = q then 0 else 1))"
    using q ne by auto
qed (auto split: if_splits)

declare String_split_loop.simps [simp del]

definition String_split :: "unicode \<Rightarrow> node list \<Rightarrow> JSString \<Rightarrow> JSString list" where
  "String_split U re s = String_split_loop U re s 0 0"

datatype segment = Plain JSString | Mark JSString

fun segment_text :: "segment \<Rightarrow> JSString" where
  "segment_text (Plain s) = s"
| "segment_text (Mark s) = s"

text \<open>
  The \<^verbatim>\<open>map\<close> over the parts calls \<^verbatim>\<open>regex.test(part)\<close> on one regular expression
  with the \<^verbatim>\<open>g\<close> flag, so \<^verbatim>\<open>lastIndex\<close> is carried from one part to the next.
\<close>

fun tag_parts :: "unicode \<Rightarrow> node list \<Rightarrow> nat \<Rightarrow> JSString list \<Rightarrow> segment list" where
  "tag_parts U re lastIndex [] = []"
| "tag_parts U re lastIndex (part # parts) =
     (let (found, lastIndex') = RegExp_test_global U re lastIndex part
      in (if found then Mark part else Plain part) # tag_parts U re lastIndex' parts)"

definition keywordPattern :: "JSString list \<Rightarrow> JSString" where
  "keywordPattern keywords =
     backslash # str ''b('' @ Array_join (str ''|'') (map escapeRegExp keywords)
       @ str '')'' @ backslash # str ''b''"

definition highlightKeywords :: "unicode \<Rightarrow> JSString list \<Rightarrow> JSString \<Rightarrow> segment list option" where
  \<comment> \<open>the children of the fragment, in order; \<open>None\<close>: \<^verbatim>\<open>new RegExp\<close> throws\<close>
  "highlightKeywords U keywords text =
     (if keywords = [] \<or> text = [] then Some [Plain text]
      else (case RegExp_new (keywordPattern keywords) of
              None \<Rightarrow> None
            | Some regex \<Rightarrow> Some (tag_parts U regex 0 (String_split U regex text))))"

definition keywords_of :: "Report \<Rightarrow> JSString list" where
  \<comment> \<open>the constant \<^verbatim>\<open>keywords\<close> of \<^verbatim>\<open>ResultsStep\<close>\<close>
  "keywords_of report = map skill (hardSkills_skills report) @ map skill (softSkills_skills report)"

section \<open>Definitions for the statements\<close>

subsection \<open>The words of the specification\<close>

text \<open>
  The ratio of a section, in exact arithmetic: the share of its tips that pass or are
  info, or of its skills that are found; 1 for an empty section. \<open>exact_score\<close> is the
  score the specification writes down, computed exactly.
\<close>

definition ratio :: "('a \<Rightarrow> bool) \<Rightarrow> 'a list \<Rightarrow> rat" where
  "ratio ok xs = (if xs = [] then 1 else of_nat (length (filter ok xs)) / of_nat (length xs))"

definition tip_ok_s :: "SearchabilityTip \<Rightarrow> bool" where
  "tip_ok_s t = (status t = S_pass \<or> status t = S_info)"

definition tip_ok_r :: "RecruiterTip \<Rightarrow> bool" where
  "tip_ok_r t = (status t = R_pass \<or> status t = R_info)"

definition skill_found :: "Skill \<Rightarrow> bool" where
  "skill_found s = (resumeCount s \<noteq> - 1)"

definition exact_score :: "Report \<Rightarrow> int" where
  "exact_score r =
     \<lfloor>100 * (ratio tip_ok_s (searchability_tips r) * (30 / 100)
             + ratio skill_found (hardSkills_skills r) * (45 / 100)
             + ratio skill_found (softSkills_skills r) * (10 / 100)
             + ratio tip_ok_r (recruiterTips_tips r) * (15 / 100)) + 1 / 2\<rfloor>"

text \<open>The invariants of a report are those of its skill entries.\<close>

definition skill_inv :: "Skill \<Rightarrow> bool" where
  "skill_inv s = (0 \<le> jdCount s \<and> (resumeCount s = - 1 \<or> 0 \<le> resumeCount s))"

definition report_inv :: "Report \<Rightarrow> bool" where
  "report_inv rep =
     (list_all skill_inv (hardSkills_skills rep) \<and> list_all skill_inv (softSkills_skills rep))"

text \<open>
  The specification asks for a case-insensitive whole-word match of the skill name:
  the name stands in the text, compared without case, and the occurrence is not part of
  a longer word, that is, no character words are written with stands right before it or
  right after it. Such a character is a letter, a digit or the underscore: in ASCII the
  word characters above, outside ASCII what the Unicode tables say (so that a name
  that follows an accented letter is part of a longer word).
  \<open>spec_optimizedReport\<close> is the copy the specification describes: the skills that are
  not found and whose name so occurs get \<^verbatim>\<open>resumeCount = 1\<close>, every tip gets the status
  \<^verbatim>\<open>pass\<close>, and nothing else changes.
\<close>

definition occurs_at :: "unicode \<Rightarrow> JSString \<Rightarrow> JSString \<Rightarrow> nat \<Rightarrow> bool" where
  \<comment> \<open>\<open>kw\<close> stands in \<open>s\<close> at index \<open>i\<close>, compared without case\<close>
  "occurs_at U kw s i =
     (map (Canonicalize U) (take (length kw) (drop i s)) = map (Canonicalize U) kw)"

definition spec_wordChar :: "unicode \<Rightarrow> nat \<Rightarrow> bool" where
  \<comment> \<open>a character words are written with\<close>
  "spec_wordChar U c = (if isASCII c then isWordChar c else unicode_word U c)"

definition isolated_at :: "unicode \<Rightarrow> JSString \<Rightarrow> JSString \<Rightarrow> nat \<Rightarrow> bool" where
  \<comment> \<open>\<open>nm\<close> stands in \<open>text\<close> at index \<open>i\<close>, with no such character right before or after\<close>
  "isolated_at U nm text i =
     (i + length nm \<le> length text \<and> occurs_at U nm text i \<and>
      (i = 0 \<or> \<not> spec_wordChar U (text ! (i - 1))) \<and>
      (i + length nm = length text \<or> \<not> spec_wordChar U (text ! (i + length nm))))"

definition spec_whole_word_occurs :: "unicode \<Rightarrow> JSString \<Rightarrow> JSString \<Rightarrow> bool" where
  "spec_whole_word_occurs U nm text = list_ex (isolated_at U nm text) [0 ..< Suc (length text)]"

definition spec_markFound :: "unicode \<Rightarrow> JSString \<Rightarrow> Skill \<Rightarrow> Skill" where
  "spec_markFound U text sk =
     (if resumeCount sk = - 1 \<and> spec_whole_word_occurs U (skill sk) text
      then sk\<lparr>resumeCount := 1\<rparr> else sk)"

definition spec_optimizedReport :: "unicode \<Rightarrow> Report \<Rightarrow> JSString \<Rightarrow> Report" where
  "spec_optimizedReport U rep text =
     \<lparr>searchability_issues = searchability_issues rep,
      searchability_tips = map (\<lambda>t. t\<lparr>status := S_pass\<rparr>) (searchability_tips rep),
      hardSkills_issues = hardSkills_issues rep,
      hardSkills_skills = map (spec_markFound U text) (hardSkills_skills rep),
      softSkills_issues = softSkills_issues rep,
      softSkills_skills = map (spec_markFound U text) (softSkills_skills rep),
      recruiterTips_issues = recruiterTips_issues rep,
      recruiterTips_tips = map (\<lambda>t. t\<lparr>status := R_pass\<rparr>) (recruiterTips_tips rep)\<rparr>"

subsection \<open>What the code computes, as values\<close>

text \<open>
  \<open>weighted\<close> is the value \<^verbatim>\<open>finalScore * 100\<close> as the code computes it from four ratios
  that are doubles. \<open>skillRegex\<close> and \<open>keywordRegex\<close> are the regular expressions the two
  patterns of the code denote (shown below), and \<open>whole_word_at\<close> is what they match.
  \<open>markFound\<close> is the body of the skill loops on the value of one skill object,
  \<open>optimizedReport_of\<close> the value of the copy when the loops are over, and \<open>heap_after\<close>
  the store when the call returns: the objects it had, then the objects of the copy.
\<close>

definition weighted :: "rat \<Rightarrow> rat \<Rightarrow> rat \<Rightarrow> rat \<Rightarrow> rat" where
  "weighted s h so rt =
     number_mul
       (number_add
         (number_add
           (number_add (number_mul s WEIGHTS_searchability) (number_mul h WEIGHTS_hardSkills))
           (number_mul so WEIGHTS_softSkills))
         (number_mul rt WEIGHTS_recruiterTips))
       100"

definition ulp :: rat where
  "ulp = 1 / 2 ^ 53"

definition skillRegex :: "JSString \<Rightarrow> node list" where
  "skillRegex sk = Atom WordB # map (\<lambda>c. Atom (Chr c)) sk @ [Atom WordB]"

fun join_bar :: "tok list list \<Rightarrow> tok list" where
  "join_bar [] = []"
| "join_bar [x] = x"
| "join_bar (x # y # ys) = x @ TBar # join_bar (y # ys)"

definition keywordRegex :: "JSString list \<Rightarrow> node list" where
  "keywordRegex kws = [Atom WordB, Group (map (map Chr) kws), Atom WordB]"

definition whole_word_at :: "unicode \<Rightarrow> JSString \<Rightarrow> JSString \<Rightarrow> nat \<Rightarrow> bool" where
  \<comment> \<open>what \<^verbatim>\<open>\bkw\b\<close> matches at \<open>i\<close>: the keyword, without case, between two word boundaries\<close>
  "whole_word_at U kw s i = (wordBoundary s i \<and> occurs_at U kw s i \<and> wordBoundary s (i + length kw))"

definition word_edged :: "JSString \<Rightarrow> bool" where
  \<comment> \<open>a name that begins and ends with a word character\<close>
  "word_edged nm = (nm \<noteq> [] \<and> isWordChar (hd nm) \<and> isWordChar (last nm))"

definition markFound :: "unicode \<Rightarrow> JSString \<Rightarrow> Skill \<Rightarrow> Skill" where
  "markFound U lower sk =
     (if resumeCount sk = - 1 \<and> RegExp_test U (skillRegex (skill sk)) lower
      then sk\<lparr>resumeCount := 1\<rparr> else sk)"

definition optimizedReport_of :: "unicode \<Rightarrow> Report \<Rightarrow> JSString \<Rightarrow> Report" where
  "optimizedReport_of U rep lower =
     \<lparr>searchability_issues = searchability_issues rep,
      searchability_tips = map (\<lambda>t. t\<lparr>status := S_pass\<rparr>) (searchability_tips rep),
      hardSkills_issues = hardSkills_issues rep,
      hardSkills_skills = map (markFound U lower) (hardSkills_skills rep),
      softSkills_issues = softSkills_issues rep,
      softSkills_skills = map (markFound U lower) (softSkills_skills rep),
      recruiterTips_issues = recruiterTips_issues rep,
      recruiterTips_tips = map (\<lambda>t. t\<lparr>status := R_pass\<rparr>) (recruiterTips_tips rep)\<rparr>"

definition heap_after :: "unicode \<Rightarrow> heap \<Rightarrow> ReportRef \<Rightarrow> JSString \<Rightarrow> heap" where
  "heap_after U h r lower =
     \<lparr>skillObjs =
        skillObjs h @ map (markFound U lower) (map (\<lambda>a. skillObjs h ! a) (hardSkills_skills r))
                    @ map (markFound U lower) (map (\<lambda>a. skillObjs h ! a) (softSkills_skills r)),
      searchabilityTipObjs =
        searchabilityTipObjs h
          @ map (\<lambda>t. t\<lparr>status := S_pass\<rparr>) (map (\<lambda>a. searchabilityTipObjs h ! a) (searchability_tips r)),
      recruiterTipObjs =
        recruiterTipObjs h
          @ map (\<lambda>t. t\<lparr>status := R_pass\<rparr>) (map (\<lambda>a. recruiterTipObjs h ! a) (recruiterTips_tips r))\<rparr>"

text \<open>
  \<open>marks\<close> lists the highlighted segments with the index at which each starts in the
  text. \<open>split_shape\<close> is the shape of the parts \<^verbatim>\<open>split\<close> returns for keywords that are not
  empty: plain parts that hold no match of their own, alternating with matches of the text.
\<close>

fun marks :: "nat \<Rightarrow> segment list \<Rightarrow> (nat \<times> JSString) list" where
  "marks off [] = []"
| "marks off (Plain s # segs) = marks (off + length s) segs"
| "marks off (Mark s # segs) = (off, s) # marks (off + length s) segs"

fun split_shape :: "unicode \<Rightarrow> JSString list \<Rightarrow> JSString \<Rightarrow> nat \<Rightarrow> JSString list \<Rightarrow> bool" where
  "split_shape U kws s off [] = False"
| "split_shape U kws s off [x] = (\<forall>i \<le> length x. match_nodes U (keywordRegex kws) x i = [])"
| "split_shape U kws s off (x # m # rest) =
     ((\<forall>i \<le> length x. match_nodes U (keywordRegex kws) x i = []) \<and>
      (\<exists>kw \<in> set kws. length m = length kw \<and> whole_word_at U kw s (off + length x)) \<and>
      split_shape U kws s (off + length x + length m) rest)"

subsection \<open>Concrete tables and reports\<close>

text \<open>
  Two tables to compute with. In \<open>ascii_tables\<close> no character outside ASCII has a case or
  is a letter. \<open>accent_tables\<close> know one letter outside ASCII, the \<^verbatim>\<open>e\<close> with an acute
  accent: its lower case is the code unit 233 (U+00E9), its upper case 201 (U+00C9).
\<close>

definition ascii_tables :: unicode where
  "ascii_tables =
     \<lparr>unicode_upper = (\<lambda>c. [c]), unicode_lower = (\<lambda>s. s), unicode_word = (\<lambda>c. False)\<rparr>"

definition accent_tables :: unicode where
  "accent_tables =
     \<lparr>unicode_upper = (\<lambda>c. if c = 233 then [201] else [c]),
      unicode_lower = map (\<lambda>c. if c = 201 then 233 else toLower c),
      unicode_word = (\<lambda>c. c = 233 \<or> c = 201)\<rparr>"

definition example_report :: Report where
  "example_report =
     \<lparr>searchability_issues = 0, searchability_tips = [],
      hardSkills_issues = 1,
      hardSkills_skills =
        [\<lparr>skill = str ''Python'', resumeCount = - 1, jdCount = 3\<rparr>,
         \<lparr>skill = str ''SQL'', resumeCount = 2, jdCount = 1\<rparr>],
      softSkills_issues = 0, softSkills_skills = [],
      recruiterTips_issues = 0, recruiterTips_tips = []\<rparr>"

definition passing_report :: Report where
  "passing_report =
     \<lparr>searchability_issues = 0,
      searchability_tips = [\<lparr>name = str ''File type'', status = S_pass, message = str ''''\<rparr>,
                            \<lparr>name = str ''Email'', status = S_info, message = str ''''\<rparr>],
      hardSkills_issues = 0,
      hardSkills_skills = [\<lparr>skill = str ''SQL'', resumeCount = 2, jdCount = 1\<rparr>],
      softSkills_issues = 0,
      softSkills_skills = [\<lparr>skill = str ''Leadership'', resumeCount = 0, jdCount = 2\<rparr>],
      recruiterTips_issues = 0,
      recruiterTips_tips = [\<lparr>name = str ''Word count'', status = R_pass, message = str ''''\<rparr>]\<rparr>"

definition empty_report :: Report where
  "empty_report =
     \<lparr>searchability_issues = 0, searchability_tips = [],
      hardSkills_issues = 0, hardSkills_skills = [],
      softSkills_issues = 0, softSkills_skills = [],
      recruiterTips_issues = 0, recruiterTips_tips = []\<rparr>"

definition failing_report :: Report where
  "failing_report =
     \<lparr>searchability_issues = 1,
      searchability_tips = [\<lparr>name = str ''File type'', status = S_fail, message = str ''''\<rparr>],
      hardSkills_issues = 1,
      hardSkills_skills = [\<lparr>skill = str ''SQL'', resumeCount = - 1, jdCount = 1\<rparr>],
      softSkills_issues = 1,
      softSkills_skills = [\<lparr>skill = str ''Leadership'', resumeCount = - 1, jdCount = 2\<rparr>],
      recruiterTips_issues = 1,
      recruiterTips_tips = [\<lparr>name = str ''Word count'', status = R_warning, message = str ''''\<rparr>]\<rparr>"

definition tie_report :: Report where
  "tie_report =
     \<lparr>searchability_issues = 1,
      searchability_tips = [\<lparr>name = str ''File type'', status = S_fail, message = str ''''\<rparr>],
      hardSkills_issues = 0,
      hardSkills_skills = [\<lparr>skill = str ''SQL'', resumeCount = 2, jdCount = 1\<rparr>],
      softSkills_issues = 1,
      softSkills_skills = [\<lparr>skill = str ''Leadership'', resumeCount = 1, jdCount = 2\<rparr>,
                           \<lparr>skill = str ''Teamwork'', resumeCount = - 1, jdCount = 1\<rparr>],
      recruiterTips_issues = 1,
      recruiterTips_tips = [\<lparr>name = str ''Word count'', status = R_pass, message = str ''''\<rparr>,
                            \<lparr>name = str ''Job title'', status = R_warning, message = str ''''\<rparr>]\<rparr>"

definition example_heap :: heap where
  "example_heap =
     \<lparr>skillObjs = [\<lparr>skill = str ''Python'', resumeCount = - 1, jdCount = 3\<rparr>,
                   \<lparr>skill = str ''SQL'', resumeCount = 2, jdCount = 1\<rparr>,
                   \<lparr>skill = str ''Teamwork'', resumeCount = - 1, jdCount = 2\<rparr>],
      searchabilityTipObjs = [\<lparr>name = str ''Email'', status = S_fail, message = str ''''\<rparr>],
      recruiterTipObjs = [\<lparr>name = str ''Word count'', status = R_warning, message = str ''''\<rparr>]\<rparr>"

definition example_ref :: ReportRef where
  "example_ref =
     \<lparr>searchability_issues = 1, searchability_tips = [0],
      hardSkills_issues = 1, hardSkills_skills = [0, 1],
      softSkills_issues = 1, softSkills_skills = [2],
      recruiterTips_issues = 1, recruiterTips_tips = [0]\<rparr>"

definition cpp_heap :: heap where
  "cpp_heap =
     \<lparr>skillObjs = [\<lparr>skill = str ''C++'', resumeCount = - 1, jdCount = 2\<rparr>],
      searchabilityTipObjs = [], recruiterTipObjs = []\<rparr>"

definition cpp_ref :: ReportRef where
  "cpp_ref =
     \<lparr>searchability_issues = 0, searchability_tips = [],
      hardSkills_issues = 1, hardSkills_skills = [0],
      softSkills_issues = 0, softSkills_skills = [],
      recruiterTips_issues = 0, recruiterTips_tips = []\<rparr>"

section \<open>Rounding to a double: bounds and monotonicity\<close>

lemma powi_mono2: "a \<le> b \<Longrightarrow> (2::rat) powi a \<le> 2 powi b"
  by (rule power_int_increasing) simp_all

lemma powi_pos2 [simp]: "0 < (2::rat) powi a"
  by (simp add: zero_less_power_int)

lemma powi_strict2: "(2::rat) powi a < 2 powi b \<Longrightarrow> a < b"
  using powi_mono2[of b a] by (cases "a < b") auto

lemma ilog2_bounds:
  assumes "0 < x"
  shows "2 powi (ilog2 x) \<le> x \<and> x < 2 powi (ilog2 x + 1)"
proof (cases "1 \<le> x")
  case True
  define n where "n = nat \<lfloor>x\<rfloor>"
  have n1: "0 < n" using True by (simp add: n_def)
  have nx: "rat_of_nat n \<le> x" "x < rat_of_nat n + 1"
    using True floor_correct[of x] by (simp_all add: n_def)
  define L where "L = floorlog 2 n"
  have b: "2 ^ (L - 1) \<le> n" "n < 2 ^ L"
    using floorlog_bounds[of n 2] n1 by (simp_all add: L_def)
  have Lpos: "0 < L" using b n1 by (cases L) auto
  have k: "ilog2 x = int L - 1" using True by (simp add: ilog2_def n_def L_def)
  have p1: "(2::rat) powi (int L - 1) = 2 ^ (L - 1)"
    using Lpos by (simp add: power_int_def nat_diff_distrib')
  have p2: "(2::rat) powi (int L - 1 + 1) = 2 ^ L"
    by (simp add: power_int_def)
  have r1: "(2::rat) ^ (L - 1) \<le> of_nat n"
    using of_nat_mono[OF b(1), where 'a = rat] by simp
  have l: "(2::rat) ^ (L - 1) \<le> x" using r1 nx(1) by (rule order_trans)
  have "Suc n \<le> 2 ^ L" using b(2) by simp
  from of_nat_mono[OF this, where 'a = rat] have r2: "rat_of_nat n + 1 \<le> 2 ^ L" by simp
  have u: "x < (2::rat) ^ L" using nx(2) r2 by (rule less_le_trans)
  show ?thesis unfolding k p1 p2 using l u by simp
next
  case False
  then have x1: "x < 1" by simp
  define c where "c = \<lceil>1 / x\<rceil>"
  have y1: "1 < 1 / x" using assms x1 by (simp add: field_simps)
  have c2: "2 \<le> c" unfolding c_def using y1 by (simp add: le_ceiling_iff)
  define n where "n = nat (c - 1)"
  have n1: "0 < n" using c2 by (simp add: n_def)
  have cn: "c = int n + 1" using c2 by (simp add: n_def)
  have yc: "1 / x \<le> of_int c" "of_int c - 1 < 1 / x"
    unfolding c_def by (simp_all add: ceiling_correct)
  define L where "L = floorlog 2 n"
  have b: "2 ^ (L - 1) \<le> n" "n < 2 ^ L"
    using floorlog_bounds[of n 2] n1 by (simp_all add: L_def)
  have Lpos: "0 < L" using b n1 by (cases L) auto
  have k: "ilog2 x = - int L" using False by (simp add: ilog2_def n_def L_def c_def)
  have p1: "(2::rat) powi (- int L) = 1 / 2 ^ L"
    by (simp add: power_int_def field_simps)
  have p2: "(2::rat) powi (- int L + 1) = 1 / 2 ^ (L - 1)"
    using Lpos by (cases L) (simp_all add: power_int_def field_simps)
  have "Suc n \<le> 2 ^ L" using b(2) by simp
  from of_nat_mono[OF this, where 'a = rat] have r2: "rat_of_nat n + 1 \<le> 2 ^ L" by simp
  have "1 / x \<le> rat_of_nat n + 1" using yc(1) cn by simp
  then have "1 / x \<le> 2 ^ L" using r2 by (rule order_trans)
  then have l: "1 / 2 ^ L \<le> x" using assms by (simp add: field_simps)
  have r1: "(2::rat) ^ (L - 1) \<le> of_nat n"
    using of_nat_mono[OF b(1), where 'a = rat] by simp
  have "rat_of_nat n < 1 / x" using yc(2) cn by simp
  with r1 have "2 ^ (L - 1) < 1 / x" by (rule le_less_trans)
  then have u: "x < 1 / 2 ^ (L - 1)" using assms by (simp add: field_simps)
  show ?thesis unfolding k p1 p2 using l u by simp
qed

lemma ilog2_unique:
  assumes "0 < x" "2 powi k \<le> x" "x < 2 powi (k + 1)"
  shows "ilog2 x = k"
proof -
  have b: "2 powi (ilog2 x) \<le> x" "x < 2 powi (ilog2 x + 1)"
    using ilog2_bounds[OF assms(1)] by simp_all
  have "2 powi k < (2::rat) powi (ilog2 x + 1)" using assms(2) b(2) by simp
  then have 1: "k < ilog2 x + 1" by (rule powi_strict2)
  have "2 powi (ilog2 x) < (2::rat) powi (k + 1)" using assms(3) b(1) by simp
  then have 2: "ilog2 x < k + 1" by (rule powi_strict2)
  show ?thesis using 1 2 by simp
qed

lemma ilog2_mono:
  assumes "0 < x" "x \<le> y"
  shows "ilog2 x \<le> ilog2 y"
proof -
  have y: "0 < y" using assms by simp
  have "2 powi (ilog2 x) \<le> x" using ilog2_bounds[OF assms(1)] by simp
  also have "x \<le> y" by fact
  also have "y < 2 powi (ilog2 y + 1)" using ilog2_bounds[OF y] by simp
  finally have "ilog2 x < ilog2 y + 1" by (rule powi_strict2)
  then show ?thesis by simp
qed

lemma rhe_lower: "y - 1 / 2 \<le> of_int (round_half_even y)"
proof -
  have "of_int \<lfloor>y\<rfloor> \<le> y" "y < of_int \<lfloor>y\<rfloor> + 1" by linarith+
  then show ?thesis by (auto simp: round_half_even_def Let_def; linarith)
qed

lemma rhe_upper: "of_int (round_half_even y) \<le> y + 1 / 2"
proof -
  have "of_int \<lfloor>y\<rfloor> \<le> y" "y < of_int \<lfloor>y\<rfloor> + 1" by linarith+
  then show ?thesis by (auto simp: round_half_even_def Let_def; linarith)
qed

lemma rhe_of_int [simp]: "round_half_even (of_int n) = n"
  by (simp add: round_half_even_def)

lemma rhe_floor_le: "\<lfloor>y\<rfloor> \<le> round_half_even y"
  by (simp add: round_half_even_def Let_def)

lemma rhe_le_floor1: "round_half_even y \<le> \<lfloor>y\<rfloor> + 1"
  by (simp add: round_half_even_def Let_def)

lemma rhe_mono:
  assumes "y \<le> z"
  shows "round_half_even y \<le> round_half_even z"
proof (cases "\<lfloor>y\<rfloor> = \<lfloor>z\<rfloor>")
  case True
  then show ?thesis using assms by (auto simp: round_half_even_def Let_def)
next
  case False
  then have "\<lfloor>y\<rfloor> + 1 \<le> \<lfloor>z\<rfloor>" using floor_mono[OF assms] by simp
  then show ?thesis using rhe_le_floor1[of y] rhe_floor_le[of z] by linarith
qed

lemma scaled_bounds:
  assumes "0 < x"
  shows "2 ^ 52 \<le> x * 2 powi (- (ilog2 x - 52))" "x * 2 powi (- (ilog2 x - 52)) < 2 ^ 53"
proof -
  have b: "2 powi (ilog2 x) \<le> x" "x < 2 powi (ilog2 x + 1)"
    using ilog2_bounds[OF assms] by simp_all
  have e1: "(2::rat) powi (ilog2 x) * 2 powi (- (ilog2 x - 52)) = 2 ^ 52"
    by (simp add: power_int_add[symmetric])
  have e2: "(2::rat) powi (ilog2 x + 1) * 2 powi (- (ilog2 x - 52)) = 2 ^ 53"
    by (simp add: power_int_add[symmetric])
  have "2 powi (ilog2 x) * 2 powi (- (ilog2 x - 52)) \<le> x * 2 powi (- (ilog2 x - 52))"
    using b(1) by (simp add: mult_right_mono)
  then show "2 ^ 52 \<le> x * 2 powi (- (ilog2 x - 52))" unfolding e1 .
  have "x * 2 powi (- (ilog2 x - 52)) < 2 powi (ilog2 x + 1) * 2 powi (- (ilog2 x - 52))"
    using b(2) by (simp add: mult_strict_right_mono)
  then show "x * 2 powi (- (ilog2 x - 52)) < 2 ^ 53" unfolding e2 .
qed

lemma rhe_scaled_bounds:
  assumes "0 < x"
  shows "2 ^ 52 \<le> round_half_even (x * 2 powi (- (ilog2 x - 52)))"
        "round_half_even (x * 2 powi (- (ilog2 x - 52))) \<le> 2 ^ 53"
proof -
  have "round_half_even (of_int (2 ^ 52)) \<le> round_half_even (x * 2 powi (- (ilog2 x - 52)))"
    by (rule rhe_mono) (use scaled_bounds(1)[OF assms] in simp)
  then show "2 ^ 52 \<le> round_half_even (x * 2 powi (- (ilog2 x - 52)))"
    by (simp only: rhe_of_int)
  have "round_half_even (x * 2 powi (- (ilog2 x - 52))) \<le> round_half_even (of_int (2 ^ 53))"
    by (rule rhe_mono) (use scaled_bounds(2)[OF assms] in simp)
  then show "round_half_even (x * 2 powi (- (ilog2 x - 52))) \<le> 2 ^ 53"
    by (simp only: rhe_of_int)
qed

lemma double_pos_bounds:
  assumes "0 < x"
  shows "2 powi (ilog2 x) \<le> double_pos x" "double_pos x \<le> 2 powi (ilog2 x + 1)"
proof -
  let ?e = "ilog2 x - 52"
  let ?m = "round_half_even (x * 2 powi (- ?e))"
  have m: "(2::rat) ^ 52 \<le> of_int ?m" "rat_of_int ?m \<le> 2 ^ 53"
    using of_int_le_iff[where 'a = rat, THEN iffD2, OF rhe_scaled_bounds(1)[OF assms]]
      of_int_le_iff[where 'a = rat, THEN iffD2, OF rhe_scaled_bounds(2)[OF assms]]
    by simp_all
  have e1: "(2::rat) ^ 52 * 2 powi ?e = 2 powi (ilog2 x)"
    using power_int_add[of "2::rat" 52 ?e] by simp
  have e2: "(2::rat) ^ 53 * 2 powi ?e = 2 powi (ilog2 x + 1)"
    using power_int_add[of "2::rat" 53 ?e] by (simp add: add.commute)
  have "2 ^ 52 * 2 powi ?e \<le> of_int ?m * (2::rat) powi ?e"
    using m(1) by (simp add: mult_right_mono)
  then show "2 powi (ilog2 x) \<le> double_pos x"
    unfolding e1 by (simp add: double_pos_def Let_def)
  have "of_int ?m * (2::rat) powi ?e \<le> 2 ^ 53 * 2 powi ?e"
    using m(2) by (simp add: mult_right_mono)
  then show "double_pos x \<le> 2 powi (ilog2 x + 1)"
    unfolding e2 by (simp add: double_pos_def Let_def)
qed

lemma double_pos_mono:
  assumes "0 < x" "x \<le> y"
  shows "double_pos x \<le> double_pos y"
proof (cases "ilog2 x = ilog2 y")
  case True
  have "round_half_even (x * 2 powi (- (ilog2 y - 52)))
        \<le> round_half_even (y * 2 powi (- (ilog2 y - 52)))"
    by (rule rhe_mono) (use assms(2) in \<open>simp add: mult_right_mono\<close>)
  then show ?thesis
    by (simp add: double_pos_def Let_def True mult_right_mono)
next
  case False
  have y: "0 < y" using assms by simp
  have "ilog2 x + 1 \<le> ilog2 y" using False ilog2_mono[OF assms] by simp
  then have "(2::rat) powi (ilog2 x + 1) \<le> 2 powi (ilog2 y)" by (rule powi_mono2)
  then show ?thesis
    using double_pos_bounds(2)[OF assms(1)] double_pos_bounds(1)[OF y] by linarith
qed

lemma double_pos_pos: "0 < x \<Longrightarrow> 0 < double_pos x"
  using double_pos_bounds(1)[of x] powi_pos2[of "ilog2 x"] by linarith

lemma double_mono:
  assumes "0 \<le> x" "x \<le> y"
  shows "double x \<le> double y"
proof (cases "x = 0")
  case True
  then show ?thesis using assms double_pos_pos[of y] by (auto simp: double_def less_imp_le)
next
  case False
  then have "0 < x" using assms by simp
  then show ?thesis using assms double_pos_mono[of x y] by (simp add: double_def)
qed

lemma double_0 [simp]: "double 0 = 0"
  by (simp add: double_def)

lemma double_nonneg: "0 \<le> x \<Longrightarrow> 0 \<le> double x"
  using double_mono[of 0 x] by simp

lemma double_1: "double 1 = 1"
  by code_simp

lemma double_100: "double 100 = 100"
  by code_simp

lemma double_error:
  assumes "0 \<le> x"
  shows "\<bar>double x - x\<bar> \<le> x / 2 ^ 53"
proof (cases "x = 0")
  case True
  then show ?thesis by simp
next
  case False
  then have x: "0 < x" using assms by simp
  let ?e = "ilog2 x - 52"
  let ?s = "x * 2 powi (- ?e)"
  let ?m = "round_half_even ?s"
  have se: "?s * 2 powi ?e = x"
    by (simp add: mult.assoc power_int_add[symmetric])
  have d: "double x - x = (of_int ?m - ?s) * 2 powi ?e"
    using x se by (simp add: double_def double_pos_def Let_def algebra_simps)
  have a: "\<bar>of_int ?m - ?s\<bar> \<le> 1 / 2"
    using rhe_lower[of ?s] rhe_upper[of ?s] by linarith
  have "(2::rat) ^ 52 * 2 powi ?e \<le> ?s * 2 powi ?e"
    using scaled_bounds(1)[OF x] by (simp only: mult_right_mono powi_pos2 less_imp_le)
  then have p: "(2::rat) powi ?e \<le> x / 2 ^ 52"
    unfolding se by (simp add: field_simps)
  have "\<bar>double x - x\<bar> = \<bar>of_int ?m - ?s\<bar> * 2 powi ?e"
    unfolding d by (simp add: abs_mult)
  also have "\<dots> \<le> (1 / 2) * 2 powi ?e"
    using a by (simp only: mult_right_mono powi_pos2 less_imp_le)
  also have "\<dots> \<le> (1 / 2) * (x / 2 ^ 52)"
    using p by simp
  finally show ?thesis by simp
qed

section \<open>The score as a function of the four section ratios\<close>

lemma W_values:
  "WEIGHTS_searchability = 5404319552844595 / 18014398509481984"
  "WEIGHTS_hardSkills = 8106479329266893 / 18014398509481984"
  "WEIGHTS_softSkills = 3602879701896397 / 36028797018963968"
  "WEIGHTS_recruiterTips = 5404319552844595 / 36028797018963968"
  by code_simp+

lemma calculateScore_weighted:
  "calculateScore r =
     Math_round (weighted (double (ratio tip_ok_s (searchability_tips r)))
                          (double (ratio skill_found (hardSkills_skills r)))
                          (double (ratio skill_found (softSkills_skills r)))
                          (double (ratio tip_ok_r (recruiterTips_tips r))))"
proof -
  have f: "tip_ok_s = (\<lambda>t. status t = S_pass \<or> status t = S_info)"
    "tip_ok_r = (\<lambda>t. status t = R_pass \<or> status t = R_info)"
    "skill_found = (\<lambda>s. resumeCount s \<noteq> - 1)"
    by (auto simp: tip_ok_s_def tip_ok_r_def skill_found_def)
  show ?thesis
    by (simp add: calculateScore_def weighted_def ratio_def Let_def number_div_def double_1 f)
qed

lemma weighted_ones: "weighted 1 1 1 1 = 100"
  by code_simp

lemma weighted_zeros: "weighted 0 0 0 0 = 0"
  by code_simp

lemma W_nonneg:
  "0 \<le> WEIGHTS_searchability" "0 \<le> WEIGHTS_hardSkills"
  "0 \<le> WEIGHTS_softSkills" "0 \<le> WEIGHTS_recruiterTips"
  by (simp_all add: W_values)

lemma number_mul_mono:
  "0 \<le> a \<Longrightarrow> a \<le> b \<Longrightarrow> 0 \<le> w \<Longrightarrow> number_mul a w \<le> number_mul b w"
  unfolding number_mul_def by (intro double_mono mult_nonneg_nonneg mult_right_mono)

lemma number_mul_nonneg: "0 \<le> a \<Longrightarrow> 0 \<le> w \<Longrightarrow> 0 \<le> number_mul a w"
  unfolding number_mul_def by (intro double_nonneg mult_nonneg_nonneg)

lemma number_add_mono:
  "0 \<le> a \<Longrightarrow> a \<le> b \<Longrightarrow> 0 \<le> c \<Longrightarrow> c \<le> d \<Longrightarrow> number_add a c \<le> number_add b d"
  unfolding number_add_def by (intro double_mono add_nonneg_nonneg add_mono)

lemma number_add_nonneg: "0 \<le> a \<Longrightarrow> 0 \<le> c \<Longrightarrow> 0 \<le> number_add a c"
  unfolding number_add_def by (intro double_nonneg add_nonneg_nonneg)

lemma weighted_mono:
  assumes "0 \<le> s" "s \<le> s'" "0 \<le> h" "h \<le> h'" "0 \<le> so" "so \<le> so'" "0 \<le> rt" "rt \<le> rt'"
  shows "weighted s h so rt \<le> weighted s' h' so' rt'"
  unfolding weighted_def
  by (intro number_mul_mono number_add_mono number_add_nonneg number_mul_nonneg assms W_nonneg)
    simp_all

lemma Math_round_mono: "x \<le> y \<Longrightarrow> Math_round x \<le> Math_round y"
  by (simp add: Math_round_def floor_mono)

lemma Math_round_consts: "Math_round 0 = 0" "Math_round 100 = 100"
  by code_simp+

lemma ratio_bounds: "0 \<le> ratio ok xs" "ratio ok xs \<le> 1"
  by (simp_all add: ratio_def divide_le_eq_1)

lemma double_ratio_bounds: "0 \<le> double (ratio ok xs)" "double (ratio ok xs) \<le> 1"
  using double_nonneg[OF ratio_bounds(1), of ok xs]
    double_mono[OF ratio_bounds(1) ratio_bounds(2), of ok xs]
  by (simp_all add: double_1)

lemma calculateScore_range: "0 \<le> calculateScore r" "calculateScore r \<le> 100"
proof -
  let ?w = "weighted (double (ratio tip_ok_s (searchability_tips r)))
                          (double (ratio skill_found (hardSkills_skills r)))
                          (double (ratio skill_found (softSkills_skills r)))
                          (double (ratio tip_ok_r (recruiterTips_tips r)))"
  have "weighted 0 0 0 0 \<le> ?w"
    by (intro weighted_mono double_ratio_bounds order_refl)
  then have "Math_round 0 \<le> Math_round ?w" unfolding weighted_zeros by (rule Math_round_mono)
  then show "0 \<le> calculateScore r" by (simp only: calculateScore_weighted Math_round_consts)
  have "?w \<le> weighted 1 1 1 1"
    by (intro weighted_mono double_ratio_bounds order_refl)
  then have "Math_round ?w \<le> Math_round 100" unfolding weighted_ones by (rule Math_round_mono)
  then show "calculateScore r \<le> 100" by (simp only: calculateScore_weighted Math_round_consts)
qed

section \<open>The score at the thresholds, on the example and at the extremes\<close>

lemma ratio_all: "list_all ok xs \<Longrightarrow> ratio ok xs = 1"
  by (simp add: ratio_def list_all_iff)

lemma ratio_none: "xs \<noteq> [] \<Longrightarrow> list_all (\<lambda>x. \<not> ok x) xs \<Longrightarrow> ratio ok xs = 0"
  by (simp add: ratio_def list_all_iff)

lemma ratio_empty: "ratio ok [] = 1"
  by (simp add: ratio_def)

lemma weighted_example: "weighted 1 (double (1 / 2)) 1 1 = 155 / 2"
  by code_simp

lemma Math_round_example: "Math_round (155 / 2) = 78"
  by code_simp

lemma example_score:
  assumes "searchability_tips r = []"
    and "hardSkills_skills r =
           [\<lparr>skill = str ''Python'', resumeCount = - 1, jdCount = 3\<rparr>,
            \<lparr>skill = str ''SQL'', resumeCount = 2, jdCount = 1\<rparr>]"
    and "softSkills_skills r = []" and "recruiterTips_tips r = []"
  shows "calculateScore r = 78"
proof -
  have h: "ratio skill_found (hardSkills_skills r) = 1 / 2"
    by (simp add: assms ratio_def skill_found_def)
  show ?thesis
    unfolding calculateScore_weighted h
    by (simp only: assms ratio_empty double_1 weighted_example Math_round_example)
qed

text \<open>
  C8. \<^verbatim>\<open>getScoreColor\<close> is green exactly from 90 up, yellow exactly from 75 to 89 and
  red exactly below 75; at the four thresholds: 90 green, 89 yellow, 75 yellow, 74 red.
\<close>

theorem getScoreColor_thresholds:
  "(getScoreColor score = green \<longleftrightarrow> 90 \<le> score) \<and>
   (getScoreColor score = yellow \<longleftrightarrow> 75 \<le> score \<and> score < 90) \<and>
   (getScoreColor score = red \<longleftrightarrow> score < 75) \<and>
   getScoreColor 90 = green \<and> getScoreColor 89 = yellow \<and>
   getScoreColor 75 = yellow \<and> getScoreColor 74 = red"
  by (simp add: getScoreColor_def)

text \<open>
  C4, as the specification states it, fails: for the report whose hard skills are Python
  (not found) and SQL (found) and whose other sections are empty, the weighted sum is
  \<open>0.30 + 0.5 * 0.45 + 0.10 + 0.15 = 0.775\<close>, not \<open>0.975\<close>, and the score is not 98.
\<close>

theorem example_score_not_98:
  "calculateScore example_report \<noteq> 98 \<and>
   (1 * (30 / 100) + (1 / 2) * (45 / 100) + 1 * (10 / 100) + 1 * (15 / 100)) * 100 = (155 / 2 :: rat)"
  using example_score[of example_report] by (simp add: example_report_def)

text \<open>
  C4, amended: for every report with these hard skills and the other three sections
  empty, \<^verbatim>\<open>calculateScore\<close> returns \<open>round (77.5) = 78\<close>, the tie rounded up.
\<close>

theorem example_score_78:
  assumes "searchability_tips r = []"
    and "hardSkills_skills r =
           [\<lparr>skill = str ''Python'', resumeCount = - 1, jdCount = 3\<rparr>,
            \<lparr>skill = str ''SQL'', resumeCount = 2, jdCount = 1\<rparr>]"
    and "softSkills_skills r = []" and "recruiterTips_tips r = []"
  shows "calculateScore r = Math_round (155 / 2) \<and> Math_round (155 / 2) = 78"
  using example_score[OF assms] by (simp add: Math_round_example)

theorem example_score_78_witness:
  "hardSkills_skills example_report =
     [\<lparr>skill = str ''Python'', resumeCount = - 1, jdCount = 3\<rparr>,
      \<lparr>skill = str ''SQL'', resumeCount = 2, jdCount = 1\<rparr>] \<and>
   calculateScore example_report = 78"
  using example_score_78[of example_report] by (simp add: example_report_def)

text \<open>
  C5. \<^verbatim>\<open>calculateScore\<close> is exactly 100 when every section is non-empty and all its
  tips pass (or are info) and all its skills are found, exactly 100 when the four
  sections are empty, and exactly 0 when every section is non-empty and none of its
  tips passes and none of its skills is found.
\<close>

theorem calculateScore_extremes:
  "(searchability_tips r \<noteq> [] \<and> hardSkills_skills r \<noteq> [] \<and>
    softSkills_skills r \<noteq> [] \<and> recruiterTips_tips r \<noteq> [] \<and>
    list_all tip_ok_s (searchability_tips r) \<and> list_all skill_found (hardSkills_skills r) \<and>
    list_all skill_found (softSkills_skills r) \<and> list_all tip_ok_r (recruiterTips_tips r)
      \<longrightarrow> calculateScore r = 100) \<and>
   (searchability_tips r = [] \<and> hardSkills_skills r = [] \<and>
    softSkills_skills r = [] \<and> recruiterTips_tips r = []
      \<longrightarrow> calculateScore r = 100) \<and>
   (searchability_tips r \<noteq> [] \<and> hardSkills_skills r \<noteq> [] \<and>
    softSkills_skills r \<noteq> [] \<and> recruiterTips_tips r \<noteq> [] \<and>
    list_all (\<lambda>t. \<not> tip_ok_s t) (searchability_tips r) \<and>
    list_all (\<lambda>s. \<not> skill_found s) (hardSkills_skills r) \<and>
    list_all (\<lambda>s. \<not> skill_found s) (softSkills_skills r) \<and>
    list_all (\<lambda>t. \<not> tip_ok_r t) (recruiterTips_tips r)
      \<longrightarrow> calculateScore r = 0)"
  by (simp add: calculateScore_weighted ratio_all ratio_none ratio_empty double_1
      weighted_ones weighted_zeros Math_round_consts)

theorem calculateScore_extremes_witness:
  "searchability_tips passing_report \<noteq> [] \<and> list_all tip_ok_s (searchability_tips passing_report) \<and>
   calculateScore passing_report = 100 \<and>
   searchability_tips empty_report = [] \<and> calculateScore empty_report = 100 \<and>
   searchability_tips failing_report \<noteq> [] \<and>
   list_all (\<lambda>t. \<not> tip_ok_s t) (searchability_tips failing_report) \<and>
   calculateScore failing_report = 0"
  using calculateScore_extremes[of passing_report] calculateScore_extremes[of empty_report]
    calculateScore_extremes[of failing_report]
  by (simp add: passing_report_def empty_report_def failing_report_def
      tip_ok_s_def tip_ok_r_def skill_found_def)

section \<open>The patterns the code builds are read as literals\<close>

lemma escapeClass_chars:
  "backslash \<in> set escapeClass" "of_char (CHR ''('') \<in> set escapeClass"
  "of_char (CHR '')'') \<in> set escapeClass" "of_char (CHR ''|'') \<in> set escapeClass"
  "of_char (CHR ''b'') \<notin> set escapeClass" "of_char (CHR ''b'') \<noteq> backslash"
  by (simp_all add: escapeClass_def backslash_def str_def)

lemma SyntaxCharacter_escapeClass: "SyntaxCharacter c \<longleftrightarrow> c \<in> set escapeClass"
  by (auto simp: SyntaxCharacter_def escapeClass_def str_def)

lemma lex_escaped_char:
  "lex ((if c \<in> set escapeClass then [backslash, c] else [c]) @ rest)
     = map_option ((#) (TAtom (Chr c))) (lex rest)"
proof (cases "c \<in> set escapeClass")
  case True
  then have "c \<noteq> of_char (CHR ''b'')" using escapeClass_chars(5) by auto
  then show ?thesis using True by (simp add: SyntaxCharacter_escapeClass)
next
  case False
  then have "c \<noteq> backslash" "c \<noteq> of_char (CHR ''('')" "c \<noteq> of_char (CHR '')'')"
    "c \<noteq> of_char (CHR ''|'')"
    using escapeClass_chars by auto
  then show ?thesis using False by (simp add: SyntaxCharacter_escapeClass)
qed

lemma lex_escapeRegExp:
  "lex (escapeRegExp s @ rest) = map_option ((@) (map (\<lambda>c. TAtom (Chr c)) s)) (lex rest)"
proof (induction s)
  case Nil
  then show ?case by (simp add: escapeRegExp_def option.map_ident)
next
  case (Cons c s)
  have "escapeRegExp (c # s) @ rest
          = (if c \<in> set escapeClass then [backslash, c] else [c]) @ (escapeRegExp s @ rest)"
    by (simp add: escapeRegExp_def)
  then show ?case
    by (simp only: lex_escaped_char Cons.IH) (simp add: option.map_comp comp_def)
qed

lemma parse_atoms: "parse (map TAtom as @ ts) = map_option ((@) (map Atom as)) (parse ts)"
  by (induction as) (simp_all add: option.map_ident option.map_comp comp_def)

lemma lex_WordB: "lex (backslash # str ''b'' @ rest) = map_option ((#) (TAtom WordB)) (lex rest)"
  by (simp add: str_def)

lemma RegExp_new_skillPattern: "RegExp_new (skillPattern sk) = Some (skillRegex sk)"
proof -
  have e: "lex (backslash # str ''b'') = Some [TAtom WordB]"
    using lex_WordB[of "[]"] by simp
  have "lex (skillPattern sk) = Some (map TAtom (WordB # map Chr sk @ [WordB]))"
    unfolding skillPattern_def
    by (simp only: lex_WordB lex_escapeRegExp e) (simp add: comp_def)
  moreover have "parse (map TAtom (WordB # map Chr sk @ [WordB]) @ []) = Some (skillRegex sk)"
    by (simp only: parse_atoms) (simp add: skillRegex_def comp_def)
  ultimately show ?thesis by (simp add: RegExp_new_def)
qed

lemma lex_bar: "lex (str ''|'' @ rest) = map_option ((#) TBar) (lex rest)"
  by (simp add: backslash_def str_def)

lemma lex_join:
  "lex (Array_join (str ''|'') (map escapeRegExp kws) @ rest)
     = map_option ((@) (join_bar (map (map (\<lambda>c. TAtom (Chr c))) kws))) (lex rest)"
proof (induction kws rule: induct_list012)
  case 1
  then show ?case by (simp add: option.map_ident)
next
  case (2 x)
  then show ?case by (simp add: lex_escapeRegExp)
next
  case (3 x y zs)
  have "Array_join (str ''|'') (map escapeRegExp (x # y # zs)) @ rest
          = escapeRegExp x @ str ''|'' @ (Array_join (str ''|'') (map escapeRegExp (y # zs)) @ rest)"
    by simp
  then show ?case
    by (simp only: lex_escapeRegExp lex_bar "3.IH"(2)) (simp add: option.map_comp comp_def)
qed

lemma split_bar_ne: "split_bar ts \<noteq> []"
  by (induction ts) (auto split: list.splits)

lemma split_bar_append:
  "TBar \<notin> set x \<Longrightarrow> split_bar (x @ ts) = (x @ hd (split_bar ts)) # tl (split_bar ts)"
  using split_bar_ne[of ts] by (induction x) (auto split: list.splits)

lemma split_bar_join:
  "xs \<noteq> [] \<Longrightarrow> \<forall>x \<in> set xs. TBar \<notin> set x \<Longrightarrow> split_bar (join_bar xs) = xs"
proof (induction xs rule: induct_list012)
  case 1
  then show ?case by simp
next
  case (2 x)
  then show ?case using split_bar_append[of x "[]"] by simp
next
  case (3 x y zs)
  then have "split_bar (join_bar (y # zs)) = y # zs" by simp
  then show ?case using 3 split_bar_append[of x "TBar # join_bar (y # zs)"] by simp
qed

lemma atoms_of_map: "atoms_of (map TAtom as) = Some as"
  by (induction as) simp_all

lemma those_atoms_of: "those (map atoms_of (map (map TAtom) ys)) = Some ys"
  by (induction ys) (simp_all add: atoms_of_map)

lemma join_bar_set: "t \<in> set (join_bar xs) \<Longrightarrow> t = TBar \<or> (\<exists>x \<in> set xs. t \<in> set x)"
  by (induction xs rule: induct_list012) auto

lemma RegExp_new_keywordPattern:
  assumes "kws \<noteq> []"
  shows "RegExp_new (keywordPattern kws) = Some (keywordRegex kws)"
proof -
  let ?xs = "map (map TAtom) (map (map Chr) kws)"
  let ?j = "join_bar ?xs"
  have l: "lex (keywordPattern kws) = Some (TAtom WordB # TOpen # ?j @ [TClose, TAtom WordB])"
  proof -
    have "keywordPattern kws
            = backslash # str ''b'' @ str ''('' @
              (Array_join (str ''|'') (map escapeRegExp kws) @ (str '')'' @ backslash # str ''b''))"
      by (simp add: keywordPattern_def str_def)
    moreover have "lex (str '')'' @ backslash # str ''b'') = Some [TClose, TAtom WordB]"
      by (simp add: backslash_def str_def)
    moreover have "lex (str ''('' @ rest) = map_option ((#) TOpen) (lex rest)" for rest
      by (simp add: backslash_def str_def)
    ultimately show ?thesis
      by (simp only: lex_WordB lex_join) (simp add: comp_def)
  qed
  have nc: "\<forall>t \<in> set ?j. t \<noteq> TClose"
    using join_bar_set[of _ ?xs] by fastforce
  have tw: "takeWhile (\<lambda>t. t \<noteq> TClose) (?j @ [TClose, TAtom WordB]) = ?j"
    using nc by (simp add: takeWhile_append2)
  have dw: "dropWhile (\<lambda>t. t \<noteq> TClose) (?j @ [TClose, TAtom WordB]) = [TClose, TAtom WordB]"
    using nc by (simp add: dropWhile_append2)
  have sb: "split_bar ?j = ?xs"
    by (rule split_bar_join) (use assms in auto)
  have "parse (TAtom WordB # TOpen # ?j @ [TClose, TAtom WordB]) = Some (keywordRegex kws)"
    by (simp add: tw dw sb those_atoms_of keywordRegex_def del: map_map)
  then show ?thesis using l by (simp add: RegExp_new_def)
qed

section \<open>Matching a literal between word boundaries\<close>

lemma occurs_at_bound: "occurs_at U kw s i \<Longrightarrow> kw \<noteq> [] \<Longrightarrow> i + length kw \<le> length s"
proof -
  assume a: "occurs_at U kw s i" and n: "kw \<noteq> []"
  from a have "length (take (length kw) (drop i s)) = length kw"
    unfolding occurs_at_def by (metis length_map)
  then show ?thesis using n by (cases kw) (auto simp: min_def split: if_splits)
qed

lemma match_atoms_literal:
  "match_atoms U (map Chr kw) s i = (if occurs_at U kw s i then Some (i + length kw) else None)"
proof (induction kw arbitrary: i)
  case Nil
  then show ?case by (simp add: occurs_at_def)
next
  case (Cons c kw)
  show ?case
  proof (cases "i < length s")
    case True
    then have d: "drop i s = s ! i # drop (Suc i) s" by (simp add: Cons_nth_drop_Suc)
    show ?thesis using True by (auto simp: Cons.IH occurs_at_def d)
  next
    case False
    then show ?thesis by (simp add: occurs_at_def)
  qed
qed

lemma match_skillRegex:
  "match_nodes U (skillRegex sk) s i =
     (if wordBoundary s i \<and> occurs_at U sk s i \<and> wordBoundary s (i + length sk)
      then [(i + length sk, [])] else [])"
proof -
  have a: "match_nodes U (map (\<lambda>c. Atom (Chr c)) kw @ ns) s j =
             (if occurs_at U kw s j then match_nodes U ns s (j + length kw) else [])" for kw ns j
  proof (induction kw arbitrary: j)
    case Nil
    then show ?case by (simp add: occurs_at_def)
  next
    case (Cons c kw)
    have "occurs_at U (c # kw) s j \<longleftrightarrow>
            j < length s \<and> Canonicalize U (s ! j) = Canonicalize U c \<and> occurs_at U kw s (Suc j)"
      using match_atoms_literal[of U "c # kw" s j] match_atoms_literal[of U kw s "Suc j"]
      by (auto split: if_splits)
    then show ?case by (simp add: Cons.IH)
  qed
  show ?thesis by (simp add: skillRegex_def a)
qed

lemma match_keywordRegex:
  "match_nodes U (keywordRegex kws) s i =
     (if wordBoundary s i
      then concat (map (\<lambda>kw. if occurs_at U kw s i \<and> wordBoundary s (i + length kw)
                               then [(i + length kw, [substring s i (i + length kw)])] else [])
                       kws)
      else [])"
proof -
  have b: "(case (if occurs_at U x s i then Some (i + length x) else None) of
              None \<Rightarrow> []
            | Some j \<Rightarrow> map (\<lambda>(e, caps). (e, substring s i j # caps)) (match_nodes U [Atom WordB] s j))
           = (if occurs_at U x s i \<and> wordBoundary s (i + length x)
              then [(i + length x, [substring s i (i + length x)])] else [])" for x
    by simp
  show ?thesis by (simp add: keywordRegex_def match_atoms_literal comp_def b)
qed

lemma keyword_match:
  assumes "match_nodes U (keywordRegex kws) s i = (e, caps) # rest"
  shows "\<exists>kw \<in> set kws. e = i + length kw \<and> occurs_at U kw s i \<and> wordBoundary s i \<and>
           wordBoundary s e \<and> caps = [substring s i e]"
proof -
  have "(e, caps) \<in> set (match_nodes U (keywordRegex kws) s i)" using assms by simp
  then show ?thesis by (auto simp: match_keywordRegex split: if_splits)
qed

section \<open>The highlighter\<close>

lemma substring_join:
  "p \<le> q \<Longrightarrow> q \<le> e \<Longrightarrow> substring s p q @ substring s q e @ drop e s = drop p s"
proof -
  assume pq: "p \<le> q" and qe: "q \<le> e"
  have 1: "substring s q e @ drop e s = drop q s"
    using qe by (metis substring_def append_take_drop_id drop_drop le_add_diff_inverse2)
  have 2: "substring s p q @ drop q s = drop p s"
    using pq by (metis substring_def append_take_drop_id drop_drop le_add_diff_inverse2)
  show ?thesis by (simp only: 1 2)
qed

lemma split_loop_concat:
  "p \<le> q \<Longrightarrow> concat (String_split_loop U (keywordRegex kws) s p q) = drop p s"
proof (induction U "keywordRegex kws" s p q rule: String_split_loop.induct)
  case (1 U s p q)
  show ?case
  proof (cases "q < length s")
    case False
    then show ?thesis
      by (subst String_split_loop.simps) (simp add: substring_def)
  next
    case True
    show ?thesis
    proof (cases "match_nodes U (keywordRegex kws) s q")
      case Nil
      then show ?thesis
        using True "1.hyps"(1)[OF True Nil] "1.prems"
        by (subst String_split_loop.simps) simp
    next
      case (Cons x rest)
      obtain e' caps where x: "x = (e', caps)" by (cases x)
      from keyword_match[OF Cons[unfolded x]] obtain kw where
        kw: "e' = q + length kw" "occurs_at U kw s q" "caps = [substring s q e']" by blast
      have le: "e' \<le> length s"
        using occurs_at_bound[OF kw(2)] kw(1) True by (cases "kw = []") auto
      then have m: "min e' (length s) = e'" by simp
      show ?thesis
      proof (cases "e' = p")
        case True
        then show ?thesis
          using \<open>q < length s\<close> Cons x m "1.hyps"(2)[OF \<open>q < length s\<close> Cons x[symmetric] m[symmetric]] "1.prems"
          by (subst String_split_loop.simps) simp
      next
        case False
        have qe: "q \<le> e'" using kw(1) by simp
        have ih: "concat (String_split_loop U (keywordRegex kws) s e' e') = drop e' s"
          using "1.hyps"(3)[OF \<open>q < length s\<close> Cons x[symmetric] m[symmetric]] False by simp
        show ?thesis
          using \<open>q < length s\<close> Cons x m False ih kw(3) substring_join[OF "1.prems" qe, of s]
          by (subst String_split_loop.simps) simp
      qed
    qed
  qed
qed

lemma tag_parts_text: "map segment_text (tag_parts U re li parts) = parts"
  by (induction parts arbitrary: li) (simp_all add: Let_def split: prod.splits)

text \<open>
  C6. For every text and keyword list, \<^verbatim>\<open>highlightKeywords\<close> returns segments whose
  texts, concatenated in order, are the text; with no keyword, or with the empty text,
  it returns the text as one plain segment.
\<close>

theorem highlightKeywords_concat:
  "(\<exists>segs. highlightKeywords U kws text = Some segs \<and> concat (map segment_text segs) = text) \<and>
   highlightKeywords U [] text = Some [Plain text] \<and>
   highlightKeywords U kws [] = Some [Plain []]"
proof -
  have "\<exists>segs. highlightKeywords U kws text = Some segs \<and> concat (map segment_text segs) = text"
  proof (cases "kws = [] \<or> text = []")
    case True
    then show ?thesis by (auto simp: highlightKeywords_def)
  next
    case False
    then have "highlightKeywords U kws text
        = Some (tag_parts U (keywordRegex kws) 0 (String_split U (keywordRegex kws) text))"
      by (simp add: highlightKeywords_def RegExp_new_keywordPattern)
    then show ?thesis
      by (simp add: tag_parts_text String_split_def split_loop_concat)
  qed
  then show ?thesis by (simp add: highlightKeywords_def)
qed

lemma search_from_Some:
  "search_from U re s li = Some (i, e, caps) \<Longrightarrow>
     li \<le> i \<and> i \<le> length s \<and> (\<exists>rest. match_nodes U re s i = (e, caps) # rest)"
proof (induction U re s li rule: search_from.induct)
  case (1 U re s li)
  show ?case
  proof (cases "match_nodes U re s li")
    case Nil
    with "1.prems" have le: "\<not> length s < li" and s: "search_from U re s (li + 1) = Some (i, e, caps)"
      by (subst (asm) search_from.simps, simp split: if_splits)+
    from "1.IH"[OF le Nil s] show ?thesis by auto
  next
    case (Cons x rest)
    with "1.prems" show ?thesis
      by (subst (asm) search_from.simps) (auto split: if_splits)
  qed
qed

lemma tag_parts_Cons:
  "tag_parts U re li (part # parts) =
     (if fst (RegExp_test_global U re li part) then Mark part else Plain part)
       # tag_parts U re (snd (RegExp_test_global U re li part)) parts"
  by (simp add: case_prod_beta)

lemma tag_parts_Mark:
  "Mark p \<in> set (tag_parts U re li parts) \<Longrightarrow>
     \<exists>i e caps rest. i \<le> length p \<and> match_nodes U re p i = (e, caps) # rest"
proof (induction parts arbitrary: li)
  case Nil
  then show ?case by simp
next
  case (Cons part parts)
  show ?case
  proof (cases "Mark p \<in> set (tag_parts U re (snd (RegExp_test_global U re li part)) parts)")
    case True
    then show ?thesis by (rule Cons.IH)
  next
    case False
    with Cons.prems have "fst (RegExp_test_global U re li part)" and "p = part"
      unfolding tag_parts_Cons by (auto split: if_splits)
    then obtain i e caps where "search_from U re p li = Some (i, e, caps)"
      by (auto simp: RegExp_test_global_def split: option.splits)
    from search_from_Some[OF this] show ?thesis by blast
  qed
qed

lemma highlight_example:
  "highlightKeywords U [str ''Java''] (str ''I know Java and JavaScript'')
     = Some [Plain (str ''I know ''), Mark (str ''Java''), Plain (str '' and JavaScript'')]"
  by code_simp

section \<open>The optimized score as a function of the report's value\<close>

lemma forEach_skill_fold:
  "forEach_skill U as lower h =
     Some (h\<lparr>skillObjs := fold (\<lambda>a xs. xs[a := markFound U lower (xs ! a)]) as (skillObjs h)\<rparr>)"
proof (induction as arbitrary: h)
  case Nil
  then show ?case by simp
next
  case (Cons a as)
  show ?case
    by (simp add: Cons.IH RegExp_new_skillPattern markFound_def Let_def)
qed

lemma forEach_searchabilityTip_fold:
  "forEach_searchabilityTip as h =
     h\<lparr>searchabilityTipObjs :=
         fold (\<lambda>a xs. xs[a := (xs ! a)\<lparr>status := S_pass\<rparr>]) as (searchabilityTipObjs h)\<rparr>"
  by (induction as arbitrary: h) simp_all

lemma forEach_recruiterTip_fold:
  "forEach_recruiterTip as h =
     h\<lparr>recruiterTipObjs :=
         fold (\<lambda>a xs. xs[a := (xs ! a)\<lparr>status := R_pass\<rparr>]) as (recruiterTipObjs h)\<rparr>"
  by (induction as arbitrary: h) simp_all

lemma fold_update_range:
  "fold (\<lambda>a xs. xs[a := f (xs ! a)]) [length ys ..< length ys + length zs] (ys @ zs @ ws)
     = ys @ map f zs @ ws"
proof (induction zs arbitrary: ys)
  case Nil
  then show ?case by simp
next
  case (Cons z zs)
  have r: "[length ys ..< length ys + length (z # zs)]
             = length ys # [length (ys @ [f z]) ..< length (ys @ [f z]) + length zs]"
    by (subst upt_conv_Cons) simp_all
  have u: "(ys @ (z # zs) @ ws)[length ys := f ((ys @ (z # zs) @ ws) ! length ys)]
             = (ys @ [f z]) @ zs @ ws"
    by simp
  show ?case
    unfolding r fold_simps u Cons.IH[of "ys @ [f z]"] by simp
qed

lemma map_nth_range:
  "map (\<lambda>a. (ys @ zs @ ws) ! a) [length ys ..< length ys + length zs] = zs"
proof -
  have "map (\<lambda>a. (ys @ zs @ ws) ! a) [length ys ..< length ys + length zs]
          = map (\<lambda>i. zs ! i) [0 ..< length zs]"
    by (rule nth_equalityI) (simp_all add: nth_append)
  then show ?thesis by (simp add: map_nth)
qed

lemma calculateOptimizedScore_value:
  "calculateOptimizedScore U h r t =
     Some (calculateScore (optimizedReport_of U (deref h r) (toLowerCase U t)),
           heap_after U h r (toLowerCase U t))"
proof -
  let ?f = "markFound U (toLowerCase U t)"
  let ?S = "skillObjs h"
  let ?H = "map (\<lambda>a. ?S ! a) (hardSkills_skills r)"
  let ?So = "map (\<lambda>a. ?S ! a) (softSkills_skills r)"
  let ?T = "searchabilityTipObjs h"
  let ?Tc = "map (\<lambda>a. ?T ! a) (searchability_tips r)"
  let ?R = "recruiterTipObjs h"
  let ?Rc = "map (\<lambda>a. ?R ! a) (recruiterTips_tips r)"
  let ?lh = "length (hardSkills_skills r)"
  let ?ls = "length (softSkills_skills r)"
  have f1: "fold (\<lambda>a xs. xs[a := ?f (xs ! a)]) [length ?S ..< length ?S + ?lh] (?S @ ?H @ ?So)
              = ?S @ map ?f ?H @ ?So"
    using fold_update_range[of ?f ?S ?H ?So] by simp
  have f2: "fold (\<lambda>a xs. xs[a := ?f (xs ! a)]) [length ?S + ?lh ..< length ?S + ?lh + ?ls]
              (?S @ map ?f ?H @ ?So)
              = ?S @ map ?f ?H @ map ?f ?So"
    using fold_update_range[of ?f "?S @ map ?f ?H" ?So "[]"] by simp
  have f3: "fold (\<lambda>a xs. xs[a := (xs ! a)\<lparr>status := S_pass\<rparr>])
              [length ?T ..< length ?T + length (searchability_tips r)] (?T @ ?Tc)
              = ?T @ map (\<lambda>t. t\<lparr>status := S_pass\<rparr>) ?Tc"
    using fold_update_range[of "\<lambda>t. t\<lparr>status := S_pass\<rparr>" ?T ?Tc "[]"] by simp
  have f4: "fold (\<lambda>a xs. xs[a := (xs ! a)\<lparr>status := R_pass\<rparr>])
              [length ?R ..< length ?R + length (recruiterTips_tips r)] (?R @ ?Rc)
              = ?R @ map (\<lambda>t. t\<lparr>status := R_pass\<rparr>) ?Rc"
    using fold_update_range[of "\<lambda>t. t\<lparr>status := R_pass\<rparr>" ?R ?Rc "[]"] by simp
  have h5: "calculateOptimizedScore U h r t =
              Some (calculateScore (deref (heap_after U h r (toLowerCase U t)) (fst (JSON_copy h r))),
                    heap_after U h r (toLowerCase U t))"
    by (simp add: calculateOptimizedScore_def JSON_copy_def Let_def forEach_skill_fold
        forEach_searchabilityTip_fold forEach_recruiterTip_fold f1 f2 f3 f4 heap_after_def
        del: map_map)
  have d1: "map (\<lambda>a. (?S @ map ?f ?H @ map ?f ?So) ! a) [length ?S ..< length ?S + ?lh] = map ?f ?H"
    using map_nth_range[of ?S "map ?f ?H" "map ?f ?So"] by simp
  have d2: "map (\<lambda>a. (?S @ map ?f ?H @ map ?f ?So) ! a)
              [length ?S + ?lh ..< length ?S + ?lh + ?ls] = map ?f ?So"
    using map_nth_range[of "?S @ map ?f ?H" "map ?f ?So" "[]"] by simp
  have d3: "map (\<lambda>a. (?T @ map (\<lambda>t. t\<lparr>status := S_pass\<rparr>) ?Tc) ! a)
              [length ?T ..< length ?T + length (searchability_tips r)]
              = map (\<lambda>t. t\<lparr>status := S_pass\<rparr>) ?Tc"
    using map_nth_range[of ?T "map (\<lambda>t. t\<lparr>status := S_pass\<rparr>) ?Tc" "[]"] by simp
  have d4: "map (\<lambda>a. (?R @ map (\<lambda>t. t\<lparr>status := R_pass\<rparr>) ?Rc) ! a)
              [length ?R ..< length ?R + length (recruiterTips_tips r)]
              = map (\<lambda>t. t\<lparr>status := R_pass\<rparr>) ?Rc"
    using map_nth_range[of ?R "map (\<lambda>t. t\<lparr>status := R_pass\<rparr>) ?Rc" "[]"] by simp
  have "deref (heap_after U h r (toLowerCase U t)) (fst (JSON_copy h r))
          = optimizedReport_of U (deref h r) (toLowerCase U t)"
    unfolding deref_def heap_after_def JSON_copy_def Let_def optimizedReport_of_def
    by (simp add: d1 d2 d3 d4 del: map_map)
  then show ?thesis using h5 by simp
qed

lemma heap_after_frame:
  assumes "wf_report h r"
  shows "deref (heap_after U h r lower) r = deref h r"
  using assms
  by (auto simp: deref_def heap_after_def wf_report_def list_all_iff nth_append)

lemma filter_length_mono:
  "(\<And>x. x \<in> set xs \<Longrightarrow> P x \<Longrightarrow> Q x) \<Longrightarrow> length (filter P xs) \<le> length (filter Q xs)"
  by (induction xs) auto

lemma ratio_map_mono:
  assumes "\<And>x. ok x \<Longrightarrow> ok (f x)"
  shows "ratio ok xs \<le> ratio ok (map f xs)"
proof (cases "xs = []")
  case True
  then show ?thesis by (simp add: ratio_def)
next
  case False
  have "length (filter ok xs) \<le> length (filter (ok \<circ> f) xs)"
    by (rule filter_length_mono) (simp add: assms)
  then have "rat_of_nat (length (filter ok xs)) \<le> rat_of_nat (length (filter (ok \<circ> f) xs))"
    by simp
  then show ?thesis
    using False by (simp add: ratio_def filter_map divide_right_mono)
qed

lemma skill_found_markFound: "skill_found s \<Longrightarrow> skill_found (markFound U lower s)"
  by (simp add: skill_found_def markFound_def)

lemma optimized_score_ge:
  "calculateScore rep \<le> calculateScore (optimizedReport_of U rep lower)"
proof -
  have 1: "ratio tip_ok_s (searchability_tips rep)
             \<le> ratio tip_ok_s (searchability_tips (optimizedReport_of U rep lower))"
    using ratio_map_mono[of tip_ok_s "\<lambda>t. t\<lparr>status := S_pass\<rparr>" "searchability_tips rep"]
    by (simp add: optimizedReport_of_def tip_ok_s_def)
  have 2: "ratio skill_found (hardSkills_skills rep)
             \<le> ratio skill_found (hardSkills_skills (optimizedReport_of U rep lower))"
    using ratio_map_mono[of skill_found "markFound U lower" "hardSkills_skills rep"]
    by (simp add: optimizedReport_of_def skill_found_markFound)
  have 3: "ratio skill_found (softSkills_skills rep)
             \<le> ratio skill_found (softSkills_skills (optimizedReport_of U rep lower))"
    using ratio_map_mono[of skill_found "markFound U lower" "softSkills_skills rep"]
    by (simp add: optimizedReport_of_def skill_found_markFound)
  have 4: "ratio tip_ok_r (recruiterTips_tips rep)
             \<le> ratio tip_ok_r (recruiterTips_tips (optimizedReport_of U rep lower))"
    using ratio_map_mono[of tip_ok_r "\<lambda>t. t\<lparr>status := R_pass\<rparr>" "recruiterTips_tips rep"]
    by (simp add: optimizedReport_of_def tip_ok_r_def)
  show ?thesis
    unfolding calculateScore_weighted
    by (intro Math_round_mono weighted_mono double_mono ratio_bounds 1 2 3 4 double_nonneg)
qed

text \<open>
  C2. For a report whose references point into the store, the call of
  \<^verbatim>\<open>calculateOptimizedScore\<close> returns and leaves a store in which the report reads as
  before: every object the store held is unchanged (the call writes to the objects of
  its copy only), so \<^verbatim>\<open>calculateScore(report)\<close> is the same before and after.
\<close>

theorem calculateOptimizedScore_frame:
  assumes "wf_report h r"
  shows "\<exists>n h'. calculateOptimizedScore U h r t = Some (n, h') \<and>
           take (length (skillObjs h)) (skillObjs h') = skillObjs h \<and>
           take (length (searchabilityTipObjs h)) (searchabilityTipObjs h') = searchabilityTipObjs h \<and>
           take (length (recruiterTipObjs h)) (recruiterTipObjs h') = recruiterTipObjs h \<and>
           deref h' r = deref h r \<and>
           calculateScore (deref h' r) = calculateScore (deref h r)"
  using heap_after_frame[OF assms, of U "toLowerCase U t"]
  by (simp add: calculateOptimizedScore_value) (simp add: heap_after_def)

theorem calculateOptimizedScore_frame_witness:
  "wf_report example_heap example_ref \<and>
   (\<exists>n h'. calculateOptimizedScore ascii_tables example_heap example_ref (str ''I use Python and SQL'') = Some (n, h') \<and>
      take 3 (skillObjs h') = skillObjs example_heap \<and>
      calculateScore (deref h' example_ref) = calculateScore (deref example_heap example_ref))"
proof -
  have w: "wf_report example_heap example_ref"
    by (simp add: wf_report_def example_heap_def example_ref_def)
  have l: "length (skillObjs example_heap) = 3" by (simp add: example_heap_def)
  from calculateOptimizedScore_frame[OF w, of ascii_tables "str ''I use Python and SQL''"] w l
  show ?thesis by auto
qed

text \<open>
  C9. Whatever integers the count fields hold, \<^verbatim>\<open>calculateScore\<close> returns an integer
  from 0 to 100, and \<^verbatim>\<open>calculateOptimizedScore\<close> returns (it does not throw: every
  pattern it builds is accepted by \<^verbatim>\<open>new RegExp\<close>) an integer from 0 to 100.
\<close>

theorem scores_in_range:
  "0 \<le> calculateScore rep \<and> calculateScore rep \<le> 100 \<and>
   (\<exists>n h'. calculateOptimizedScore U h r t = Some (n, h') \<and> 0 \<le> n \<and> n \<le> 100)"
  by (simp add: calculateOptimizedScore_value calculateScore_range)

text \<open>
  C10. For a report that satisfies the invariants of its skill entries,
  \<^verbatim>\<open>calculateOptimizedScore\<close> returns a score that is at least \<^verbatim>\<open>calculateScore\<close> of the
  report.
\<close>

theorem optimized_ge_original:
  assumes "report_inv (deref h r)"
  shows "\<exists>n h'. calculateOptimizedScore U h r t = Some (n, h') \<and> calculateScore (deref h r) \<le> n"
  by (simp add: calculateOptimizedScore_value optimized_score_ge)

theorem optimized_ge_original_witness:
  "report_inv (deref example_heap example_ref) \<and>
   (\<exists>n h'. calculateOptimizedScore ascii_tables example_heap example_ref (str ''I use Python and SQL'') = Some (n, h') \<and>
      calculateScore (deref example_heap example_ref) \<le> n)"
proof -
  have i: "report_inv (deref example_heap example_ref)"
    by (simp add: report_inv_def skill_inv_def deref_def example_heap_def example_ref_def)
  from optimized_ge_original[OF i, of ascii_tables "str ''I use Python and SQL''"] i show ?thesis by auto
qed

section \<open>The pattern of a skill and the whole-word match of the specification\<close>

lemma isASCII_toLower: "isASCII c \<Longrightarrow> isASCII (toLower c)"
  by (auto simp: isASCII_def toLower_def)

lemma Canonicalize_toLower: "isASCII c \<Longrightarrow> Canonicalize U (toLower c) = Canonicalize U c"
  by (auto simp: Canonicalize_def isASCII_def toLower_def toUpper_def)

lemma isWordChar_toLower: "isWordChar (toLower c) = isWordChar c"
  by (auto simp: isWordChar_def toLower_def)

lemma isWordChar_ASCII: "isWordChar c \<Longrightarrow> isASCII c"
  by (auto simp: isWordChar_def isASCII_def)

lemma isWordChar_Canonicalize: "isWordChar (Canonicalize U c) = isWordChar c"
proof (cases "isASCII c")
  case True
  then show ?thesis by (auto simp: isWordChar_def Canonicalize_def toUpper_def)
next
  case False
  then have "\<not> isASCII (Canonicalize U c)"
    by (auto simp: Canonicalize_def split: list.splits)
  with False show ?thesis using isWordChar_ASCII by blast
qed

lemma Canonicalize_eq_word:
  "Canonicalize U a = Canonicalize U b \<Longrightarrow> isWordChar a = isWordChar b"
  by (metis isWordChar_Canonicalize)

lemma toLowerCase_ASCII: "list_all isASCII s \<Longrightarrow> toLowerCase U s = map toLower s"
  by (simp add: toLowerCase_def)

lemma occurs_at_lower:
  assumes "list_all isASCII s"
  shows "occurs_at U nm (toLowerCase U s) i = occurs_at U nm s i"
proof -
  have "set (take (length nm) (drop i s)) \<subseteq> set s"
    using set_take_subset[of "length nm" "drop i s"] set_drop_subset[of i s] by blast
  then have "map (Canonicalize U) (map toLower (take (length nm) (drop i s)))
               = map (Canonicalize U) (take (length nm) (drop i s))"
    using assms by (auto simp: list_all_iff Canonicalize_toLower)
  then show ?thesis
    by (simp only: occurs_at_def toLowerCase_ASCII[OF assms] drop_map take_map)
qed

lemma wordBoundary_lower:
  "list_all isASCII s \<Longrightarrow> wordBoundary (toLowerCase U s) i = wordBoundary s i"
  by (auto simp: wordBoundary_def toLowerCase_ASCII isWordChar_toLower Let_def)

lemma search_from_None:
  "search_from U re s li = None \<Longrightarrow> li \<le> i \<Longrightarrow> i \<le> length s \<Longrightarrow> match_nodes U re s i = []"
proof (induction U re s li rule: search_from.induct)
  case (1 U re s li)
  from "1.prems"(2,3) have le: "\<not> length s < li" by simp
  from "1.prems"(1) le have m: "match_nodes U re s li = []"
    by (subst (asm) search_from.simps) (auto split: list.splits)
  from "1.prems"(1) le m have n: "search_from U re s (li + 1) = None"
    by (subst (asm) search_from.simps) simp
  show ?case
  proof (cases "i = li")
    case True
    then show ?thesis using m by simp
  next
    case False
    then have "li + 1 \<le> i" using "1.prems"(2) by simp
    from "1.IH"[OF le m n this "1.prems"(3)] show ?thesis .
  qed
qed

lemma RegExp_test_iff:
  "RegExp_test U re s \<longleftrightarrow> (\<exists>i \<le> length s. match_nodes U re s i \<noteq> [])"
proof
  assume "RegExp_test U re s"
  then obtain x where "search_from U re s 0 = Some x"
    unfolding RegExp_test_def by blast
  then obtain i e caps where "search_from U re s 0 = Some (i, e, caps)"
    by (cases x) auto
  from search_from_Some[OF this] show "\<exists>i \<le> length s. match_nodes U re s i \<noteq> []" by auto
next
  assume "\<exists>i \<le> length s. match_nodes U re s i \<noteq> []"
  then obtain i where i: "i \<le> length s" "match_nodes U re s i \<noteq> []" by blast
  show "RegExp_test U re s"
  proof (rule ccontr)
    assume "\<not> RegExp_test U re s"
    then have "search_from U re s 0 = None" unfolding RegExp_test_def by blast
    from search_from_None[OF this _ i(1)] i(2) show False by simp
  qed
qed

lemma RegExp_test_skillRegex:
  "RegExp_test U (skillRegex nm) s \<longleftrightarrow> (\<exists>i \<le> length s. whole_word_at U nm s i)"
  by (auto simp: RegExp_test_iff match_skillRegex whole_word_at_def)

lemma occurs_at_nth:
  assumes "occurs_at U nm s i" "k < length nm"
  shows "Canonicalize U (s ! (i + k)) = Canonicalize U (nm ! k)"
proof -
  have b: "i + length nm \<le> length s"
    using occurs_at_bound[OF assms(1)] assms(2) by (cases "nm = []") auto
  from assms(1) have "map (Canonicalize U) (take (length nm) (drop i s)) ! k = map (Canonicalize U) nm ! k"
    by (simp add: occurs_at_def)
  then show ?thesis using assms(2) b by simp
qed

lemma whole_word_at_isolated:
  assumes "nm \<noteq> []" "isWordChar (hd nm)" "isWordChar (last nm)"
  shows "whole_word_at U nm s i \<longleftrightarrow>
           i + length nm \<le> length s \<and> occurs_at U nm s i \<and>
           (i = 0 \<or> \<not> isWordChar (s ! (i - 1))) \<and>
           (i + length nm = length s \<or> \<not> isWordChar (s ! (i + length nm)))"
proof (cases "occurs_at U nm s i")
  case False
  then show ?thesis by (simp add: whole_word_at_def)
next
  case True
  have b: "i + length nm \<le> length s" using occurs_at_bound[OF True assms(1)] .
  have l: "0 < length nm" using assms(1) by (cases nm) simp_all
  have "Canonicalize U (s ! (i + 0)) = Canonicalize U (nm ! 0)"
    by (rule occurs_at_nth[OF True l])
  then have f: "isWordChar (s ! i)"
    using Canonicalize_eq_word[of U "s ! i" "nm ! 0"] assms(1,2) by (simp add: hd_conv_nth)
  have "Canonicalize U (s ! (i + (length nm - 1))) = Canonicalize U (nm ! (length nm - 1))"
    by (rule occurs_at_nth[OF True]) (use l in simp)
  then have e: "isWordChar (s ! (i + length nm - 1))"
    using Canonicalize_eq_word[of U "s ! (i + (length nm - 1))" "nm ! (length nm - 1)"] assms(1,3) l
    by (simp add: last_conv_nth)
  have il: "i < length s" "i + length nm - 1 < length s" using b l by linarith+
  have w1: "wordBoundary s i \<longleftrightarrow> (i = 0 \<or> \<not> isWordChar (s ! (i - 1)))"
    using f il by (auto simp: wordBoundary_def Let_def)
  have w2: "wordBoundary s (i + length nm) \<longleftrightarrow>
              (i + length nm = length s \<or> \<not> isWordChar (s ! (i + length nm)))"
    using e b l il by (auto simp: wordBoundary_def Let_def)
  show ?thesis using True b by (simp add: whole_word_at_def w1 w2)
qed

lemma spec_wordChar_ASCII:
  "list_all isASCII s \<Longrightarrow> k < length s \<Longrightarrow> spec_wordChar U (s ! k) = isWordChar (s ! k)"
  by (simp add: spec_wordChar_def list_all_length)

lemma isolated_at_ASCII:
  assumes "list_all isASCII s"
  shows "isolated_at U nm s i \<longleftrightarrow>
           i + length nm \<le> length s \<and> occurs_at U nm s i \<and>
           (i = 0 \<or> \<not> isWordChar (s ! (i - 1))) \<and>
           (i + length nm = length s \<or> \<not> isWordChar (s ! (i + length nm)))"
proof (cases "i + length nm \<le> length s")
  case False
  then show ?thesis by (simp add: isolated_at_def)
next
  case True
  have 1: "spec_wordChar U (s ! (i - 1)) = isWordChar (s ! (i - 1))" if "i \<noteq> 0"
    using that True by (intro spec_wordChar_ASCII[OF assms]) simp
  have 2: "spec_wordChar U (s ! (i + length nm)) = isWordChar (s ! (i + length nm))"
    if "i + length nm \<noteq> length s"
    using that True by (intro spec_wordChar_ASCII[OF assms]) simp
  show ?thesis using 1 2 by (auto simp: isolated_at_def)
qed

lemma whole_word_at_iff_isolated:
  "word_edged nm \<Longrightarrow> list_all isASCII s \<Longrightarrow> whole_word_at U nm s i = isolated_at U nm s i"
  using whole_word_at_isolated[of nm U s i] by (simp add: word_edged_def isolated_at_ASCII)

lemma skill_test_agrees:
  assumes "word_edged nm" "list_all isASCII resume"
  shows "RegExp_test U (skillRegex nm) (toLowerCase U resume) = spec_whole_word_occurs U nm resume"
proof -
  have len: "length (toLowerCase U resume) = length resume"
    by (simp add: toLowerCase_ASCII[OF assms(2)])
  have w: "whole_word_at U nm (toLowerCase U resume) i = isolated_at U nm resume i" for i
    using whole_word_at_iff_isolated[OF assms, of U i]
    by (simp add: whole_word_at_def occurs_at_lower[OF assms(2)] wordBoundary_lower[OF assms(2)])
  have "spec_whole_word_occurs U nm resume \<longleftrightarrow> (\<exists>i \<le> length resume. isolated_at U nm resume i)"
    by (simp add: spec_whole_word_occurs_def list_ex_iff Bex_def less_Suc_eq_le del: upt_Suc)
  then show ?thesis
    unfolding RegExp_test_skillRegex by (simp add: w len)
qed

lemma optimizedReport_agrees:
  assumes "list_all (\<lambda>s. word_edged (skill s)) (hardSkills_skills rep)"
    and "list_all (\<lambda>s. word_edged (skill s)) (softSkills_skills rep)"
    and "list_all isASCII resume"
  shows "optimizedReport_of U rep (toLowerCase U resume) = spec_optimizedReport U rep resume"
proof -
  have "markFound U (toLowerCase U resume) s = spec_markFound U resume s" if "word_edged (skill s)" for s
    using that assms(3) by (simp add: markFound_def spec_markFound_def skill_test_agrees)
  then show ?thesis
    using assms(1,2) by (simp add: optimizedReport_of_def spec_optimizedReport_def list_all_iff)
qed

section \<open>The score in exact arithmetic and in doubles\<close>

lemma double_error_le:
  assumes "0 \<le> x" "x \<le> b"
  shows "\<bar>double x - x\<bar> \<le> b * ulp"
proof -
  have "\<bar>double x - x\<bar> \<le> x / 2 ^ 53" by (rule double_error[OF assms(1)])
  also have "\<dots> \<le> b / 2 ^ 53" using assms(2) by (simp add: divide_right_mono)
  finally show ?thesis by (simp add: ulp_def)
qed

lemma mul_step:
  assumes a: "0 \<le> a" "a \<le> 1" and a': "0 \<le> a'" "a' \<le> 1" and da: "\<bar>a' - a\<bar> \<le> ulp"
    and W: "0 \<le> W" "W \<le> 1" and dw: "\<bar>W - w\<bar> \<le> ulp"
  shows "\<bar>number_mul a' W - a * w\<bar> \<le> 3 * ulp" "0 \<le> number_mul a' W" "number_mul a' W \<le> 1"
proof -
  have p0: "0 \<le> a' * W" using a'(1) W(1) by simp
  have p1: "a' * W \<le> 1" using a' W by (simp add: mult_le_one)
  have e1: "\<bar>double (a' * W) - a' * W\<bar> \<le> 1 * ulp" by (rule double_error_le[OF p0 p1])
  have "\<bar>(a' - a) * W\<bar> \<le> ulp * 1"
    unfolding abs_mult using da W by (intro mult_mono) simp_all
  moreover have "\<bar>a * (W - w)\<bar> \<le> 1 * ulp"
    unfolding abs_mult using dw a by (intro mult_mono) simp_all
  moreover have "a' * W - a * w = (a' - a) * W + a * (W - w)" by (simp add: algebra_simps)
  ultimately have e2: "\<bar>a' * W - a * w\<bar> \<le> 2 * ulp" by linarith
  show "\<bar>number_mul a' W - a * w\<bar> \<le> 3 * ulp"
    unfolding number_mul_def using e1 e2 by linarith
  show "0 \<le> number_mul a' W" unfolding number_mul_def by (rule double_nonneg[OF p0])
  have "double (a' * W) \<le> double 1" by (rule double_mono[OF p0 p1])
  then show "number_mul a' W \<le> 1" by (simp add: number_mul_def double_1)
qed

lemma add_step:
  assumes x: "0 \<le> x" "x \<le> b" and y: "0 \<le> y" "y \<le> 1"
    and dx: "\<bar>x - X\<bar> \<le> ex" and dy: "\<bar>y - Y\<bar> \<le> ey" and b: "double (b + 1) = b + 1"
  shows "\<bar>number_add x y - (X + Y)\<bar> \<le> ex + ey + (b + 1) * ulp"
    "0 \<le> number_add x y" "number_add x y \<le> b + 1"
proof -
  have s0: "0 \<le> x + y" using x y by simp
  have s1: "x + y \<le> b + 1" using x y by simp
  have e: "\<bar>double (x + y) - (x + y)\<bar> \<le> (b + 1) * ulp" by (rule double_error_le[OF s0 s1])
  show "\<bar>number_add x y - (X + Y)\<bar> \<le> ex + ey + (b + 1) * ulp"
    unfolding number_add_def using e dx dy by linarith
  show "0 \<le> number_add x y" unfolding number_add_def by (rule double_nonneg[OF s0])
  have "double (x + y) \<le> double (b + 1)" by (rule double_mono[OF s0 s1])
  then show "number_add x y \<le> b + 1" by (simp add: number_add_def b)
qed

lemma double_small_ints: "double 2 = 2" "double 3 = 3" "double 4 = 4"
  by code_simp+

lemma W_error:
  "\<bar>WEIGHTS_searchability - 30 / 100\<bar> \<le> ulp" "\<bar>WEIGHTS_hardSkills - 45 / 100\<bar> \<le> ulp"
  "\<bar>WEIGHTS_softSkills - 10 / 100\<bar> \<le> ulp" "\<bar>WEIGHTS_recruiterTips - 15 / 100\<bar> \<le> ulp"
  by (simp_all add: W_values ulp_def)

lemma W_le_1:
  "WEIGHTS_searchability \<le> 1" "WEIGHTS_hardSkills \<le> 1"
  "WEIGHTS_softSkills \<le> 1" "WEIGHTS_recruiterTips \<le> 1"
  by (simp_all add: W_values)

lemma weighted_error:
  assumes s: "0 \<le> s" "s \<le> 1" and h: "0 \<le> h" "h \<le> 1"
    and so: "0 \<le> so" "so \<le> 1" and rt: "0 \<le> rt" "rt \<le> 1"
  shows "\<bar>weighted (double s) (double h) (double so) (double rt)
           - 100 * (s * (30 / 100) + h * (45 / 100) + so * (10 / 100) + rt * (15 / 100))\<bar>
         \<le> 2500 * ulp"
proof -
  have d: "0 \<le> double x \<and> double x \<le> 1 \<and> \<bar>double x - x\<bar> \<le> ulp" if "0 \<le> x" "x \<le> 1" for x
    using double_nonneg[OF that(1)] double_mono[OF that] double_error_le[OF that]
    by (simp add: double_1)
  note ds = d[OF s] and dh = d[OF h] and dso = d[OF so] and drt = d[OF rt]
  let ?p1 = "number_mul (double s) WEIGHTS_searchability"
  let ?p2 = "number_mul (double h) WEIGHTS_hardSkills"
  let ?p3 = "number_mul (double so) WEIGHTS_softSkills"
  let ?p4 = "number_mul (double rt) WEIGHTS_recruiterTips"
  have p1: "\<bar>?p1 - s * (30 / 100)\<bar> \<le> 3 * ulp" "0 \<le> ?p1" "?p1 \<le> 1"
    using mul_step[OF s _ _ _ W_nonneg(1) W_le_1(1) W_error(1), of "double s"] ds by simp_all
  have p2: "\<bar>?p2 - h * (45 / 100)\<bar> \<le> 3 * ulp" "0 \<le> ?p2" "?p2 \<le> 1"
    using mul_step[OF h _ _ _ W_nonneg(2) W_le_1(2) W_error(2), of "double h"] dh by simp_all
  have p3: "\<bar>?p3 - so * (10 / 100)\<bar> \<le> 3 * ulp" "0 \<le> ?p3" "?p3 \<le> 1"
    using mul_step[OF so _ _ _ W_nonneg(3) W_le_1(3) W_error(3), of "double so"] dso by simp_all
  have p4: "\<bar>?p4 - rt * (15 / 100)\<bar> \<le> 3 * ulp" "0 \<le> ?p4" "?p4 \<le> 1"
    using mul_step[OF rt _ _ _ W_nonneg(4) W_le_1(4) W_error(4), of "double rt"] drt by simp_all
  let ?a1 = "number_add ?p1 ?p2"
  have a1: "\<bar>?a1 - (s * (30 / 100) + h * (45 / 100))\<bar> \<le> 3 * ulp + 3 * ulp + (1 + 1) * ulp"
    "0 \<le> ?a1" "?a1 \<le> 1 + 1"
    by (rule add_step[OF p1(2,3) p2(2,3) p1(1) p2(1)], simp add: double_small_ints)+
  let ?a2 = "number_add ?a1 ?p3"
  have a2: "\<bar>?a2 - (s * (30 / 100) + h * (45 / 100) + so * (10 / 100))\<bar>
              \<le> (3 * ulp + 3 * ulp + (1 + 1) * ulp) + 3 * ulp + (1 + 1 + 1) * ulp"
    "0 \<le> ?a2" "?a2 \<le> 1 + 1 + 1"
    by (rule add_step[OF a1(2,3) p3(2,3) a1(1) p3(1)], simp add: double_small_ints)+
  let ?a3 = "number_add ?a2 ?p4"
  have a3: "\<bar>?a3 - (s * (30 / 100) + h * (45 / 100) + so * (10 / 100) + rt * (15 / 100))\<bar>
              \<le> ((3 * ulp + 3 * ulp + (1 + 1) * ulp) + 3 * ulp + (1 + 1 + 1) * ulp)
                  + 3 * ulp + (1 + 1 + 1 + 1) * ulp"
    "0 \<le> ?a3" "?a3 \<le> 1 + 1 + 1 + 1"
    by (rule add_step[OF a2(2,3) p4(2,3) a2(1) p4(1)], simp add: double_small_ints)+
  have m0: "0 \<le> ?a3 * 100" using a3(2) by simp
  have m1: "?a3 * 100 \<le> 400" using a3(3) by simp
  have e: "\<bar>double (?a3 * 100) - ?a3 * 100\<bar> \<le> 400 * ulp" by (rule double_error_le[OF m0 m1])
  have w: "weighted (double s) (double h) (double so) (double rt) = double (?a3 * 100)"
    by (simp add: weighted_def number_mul_def)
  define A where "A = s * (30 / 100) + h * (45 / 100) + so * (10 / 100) + rt * (15 / 100)"
  define x where "x = ?a3"
  define d where "d = double (x * 100)"
  have 1: "\<bar>d - x * 100\<bar> \<le> 400 * ulp" using e by (simp add: d_def x_def)
  have 2: "\<bar>x - A\<bar> \<le> 21 * ulp" using a3(1) by (simp add: x_def A_def)
  have "\<bar>d - 100 * A\<bar> \<le> 2500 * ulp" using 1 2 by linarith
  then show ?thesis unfolding w by (simp add: d_def x_def A_def)
qed

lemma Math_round_close:
  assumes "\<bar>v - e\<bar> \<le> 1 / 2"
  shows "\<bar>Math_round v - \<lfloor>e + 1 / 2\<rfloor>\<bar> \<le> 1"
proof -
  define a where "a = \<lfloor>v + 1 / 2\<rfloor>"
  define b where "b = \<lfloor>e + 1 / 2\<rfloor>"
  have v: "rat_of_int a \<le> v + 1 / 2" "v + 1 / 2 < rat_of_int a + 1"
    unfolding a_def by linarith+
  have e: "rat_of_int b \<le> e + 1 / 2" "e + 1 / 2 < rat_of_int b + 1"
    unfolding b_def by linarith+
  have "rat_of_int a < rat_of_int b + 2" "rat_of_int b < rat_of_int a + 2"
    using v e assms by linarith+
  then have "rat_of_int a < rat_of_int (b + 2)" "rat_of_int b < rat_of_int (a + 2)"
    by simp_all
  then have "a < b + 2" "b < a + 2"
    by (simp_all only: of_int_less_iff)
  then show ?thesis unfolding Math_round_def a_def b_def by linarith
qed

lemma calculateScore_near_exact: "\<bar>calculateScore r - exact_score r\<bar> \<le> 1"
proof -
  have "2500 * ulp \<le> 1 / 2" by (simp add: ulp_def)
  then have "\<bar>weighted (double (ratio tip_ok_s (searchability_tips r)))
                     (double (ratio skill_found (hardSkills_skills r)))
                     (double (ratio skill_found (softSkills_skills r)))
                     (double (ratio tip_ok_r (recruiterTips_tips r)))
           - 100 * (ratio tip_ok_s (searchability_tips r) * (30 / 100)
                    + ratio skill_found (hardSkills_skills r) * (45 / 100)
                    + ratio skill_found (softSkills_skills r) * (10 / 100)
                    + ratio tip_ok_r (recruiterTips_tips r) * (15 / 100))\<bar> \<le> 1 / 2"
    using weighted_error[OF ratio_bounds ratio_bounds ratio_bounds ratio_bounds,
        of tip_ok_s "searchability_tips r" skill_found "hardSkills_skills r"
           skill_found "softSkills_skills r" tip_ok_r "recruiterTips_tips r"]
    by linarith
  from Math_round_close[OF this] show ?thesis
    by (simp add: calculateScore_weighted exact_score_def)
qed

lemma tie_report_inv: "report_inv tie_report"
  by (simp add: report_inv_def skill_inv_def tie_report_def)

lemma tie_report_scores: "calculateScore tie_report = 57" "exact_score tie_report = 58"
  by code_simp+

text \<open>
  C1, as the specification states it, fails: with the ratios 0, 1, 1/2 and 1/2 the
  weighted sum is exactly 0.575 and its round-half-up is 58, but in doubles
  \<open>0.45 + 0.05\<close> is \<open>0.5\<close> and \<open>0.5 + 0.075\<close> is the double nearest to 0.575, which lies
  below it; 100 times that is rounded to \<open>57.49999999999999\<close>, and \<^verbatim>\<open>Math.round\<close>
  returns 57.
\<close>

theorem calculateScore_not_exact:
  "report_inv tie_report \<and> calculateScore tie_report = 57 \<and> exact_score tie_report = 58 \<and>
   calculateScore tie_report \<noteq> exact_score tie_report"
  using tie_report_inv tie_report_scores by simp

text \<open>
  C1, amended: for every report that satisfies the invariants, \<^verbatim>\<open>calculateScore\<close> is
  the round-half-up of 100 times the weighted sum as binary64 arithmetic computes it (the
  four ratios, the four products, the three sums and the product by 100 each rounded to
  the nearest double, an empty section having ratio 1); it is an integer from 0 to 100,
  and differs by at most 1 from the round-half-up of the exact value.
\<close>

theorem calculateScore_double:
  assumes "report_inv r"
  shows "calculateScore r =
           Math_round (weighted (double (ratio tip_ok_s (searchability_tips r)))
                                (double (ratio skill_found (hardSkills_skills r)))
                                (double (ratio skill_found (softSkills_skills r)))
                                (double (ratio tip_ok_r (recruiterTips_tips r)))) \<and>
         0 \<le> calculateScore r \<and> calculateScore r \<le> 100 \<and>
         \<bar>calculateScore r - exact_score r\<bar> \<le> 1"
  using calculateScore_weighted[of r] calculateScore_range[of r] calculateScore_near_exact[of r]
  by simp

theorem calculateScore_double_witness:
  "report_inv tie_report \<and> 0 \<le> calculateScore tie_report \<and> calculateScore tie_report \<le> 100 \<and>
   \<bar>calculateScore tie_report - exact_score tie_report\<bar> \<le> 1"
  using calculateScore_double[OF tie_report_inv] tie_report_inv by blast

section \<open>The optimized score against the copy of the specification\<close>

text \<open>
  Where the code computes the copy the specification describes: for skill names that
  begin and end with an ASCII word character, on an optimized resume written in ASCII.
\<close>

lemma calculateOptimizedScore_agrees_on_words:
  assumes "list_all (\<lambda>s. word_edged (skill s)) (hardSkills_skills (deref h r))"
    and "list_all (\<lambda>s. word_edged (skill s)) (softSkills_skills (deref h r))"
    and "list_all isASCII t"
  shows "calculateOptimizedScore U h r t =
           Some (calculateScore (spec_optimizedReport U (deref h r) t), heap_after U h r (toLowerCase U t))"
  by (simp add: calculateOptimizedScore_value optimizedReport_agrees[OF assms])

lemma python_example:
  "map_option fst
     (calculateOptimizedScore U
        \<lparr>skillObjs = hardSkills_skills example_report, searchabilityTipObjs = [], recruiterTipObjs = []\<rparr>
        \<lparr>searchability_issues = 0, searchability_tips = [],
         hardSkills_issues = 1, hardSkills_skills = [0, 1],
         softSkills_issues = 0, softSkills_skills = [],
         recruiterTips_issues = 0, recruiterTips_tips = []\<rparr>
        (str ''Senior Python developer'')) = Some 100"
  by code_simp

text \<open>
  C3 at the skill \<^verbatim>\<open>C++\<close>, not found in the original resume, and the optimized resume
  \<^verbatim>\<open>I know C++ well\<close>: the name stands in the text as a whole word, but the pattern
  \<^verbatim>\<open>\bC\+\+\b\<close> asks for a word boundary after the last \<^verbatim>\<open>+\<close>, and there is none between
  \<^verbatim>\<open>+\<close> and the space. The copy keeps \<^verbatim>\<open>resumeCount = -1\<close> and the optimized score is 55,
  where the copy the specification describes has \<^verbatim>\<open>resumeCount = 1\<close> and scores 100.
\<close>

theorem cpp_skill_not_marked:
  "spec_whole_word_occurs U (str ''C++'') (str ''I know C++ well'') \<and>
   map_option (\<lambda>(n, h'). map resumeCount (skillObjs h'))
     (calculateOptimizedScore U cpp_heap cpp_ref (str ''I know C++ well'')) = Some [- 1, - 1] \<and>
   map_option fst (calculateOptimizedScore U cpp_heap cpp_ref (str ''I know C++ well'')) = Some 55 \<and>
   map resumeCount
     (hardSkills_skills (spec_optimizedReport U (deref cpp_heap cpp_ref) (str ''I know C++ well'')))
     = [1] \<and>
   calculateScore (spec_optimizedReport U (deref cpp_heap cpp_ref) (str ''I know C++ well'')) = 100"
  by code_simp

section \<open>The highlighted segments and the whole words of the text\<close>

lemma keyword_match_iff:
  "match_nodes U (keywordRegex kws) s i \<noteq> [] \<longleftrightarrow> (\<exists>kw \<in> set kws. whole_word_at U kw s i)"
  by (auto simp: match_keywordRegex whole_word_at_def)

lemma substring_length: "q \<le> length s \<Longrightarrow> length (substring s p q) = q - p"
  by (simp add: substring_def)

lemma substring_nth: "q \<le> length s \<Longrightarrow> k < q - p \<Longrightarrow> substring s p q ! k = s ! (p + k)"
  by (simp add: substring_def)

lemma occurs_at_substring:
  assumes "occurs_at U kw (substring s p q) i" "kw \<noteq> []" "q \<le> length s"
  shows "occurs_at U kw s (p + i)" "i + length kw \<le> q - p"
proof -
  have b: "i + length kw \<le> length (substring s p q)" by (rule occurs_at_bound[OF assms(1,2)])
  then show b': "i + length kw \<le> q - p" using assms(3) by (simp add: substring_length)
  have "take (length kw) (drop i (substring s p q)) = take (length kw) (drop (p + i) s)"
    using b' by (simp add: substring_def drop_take min_def add.commute)
  then show "occurs_at U kw s (p + i)" using assms(1) by (simp add: occurs_at_def)
qed

lemma wordBoundary_inner:
  assumes "q \<le> length s" "0 < j" "j < q - p"
  shows "wordBoundary (substring s p q) j = wordBoundary s (p + j)"
proof -
  have 1: "substring s p q ! (j - 1) = s ! (p + j - 1)"
    using substring_nth[OF assms(1), of "j - 1" p] assms by simp
  have 2: "substring s p q ! j = s ! (p + j)"
    using substring_nth[OF assms(1), of j p] assms by simp
  show ?thesis
    using assms 1 2 by (auto simp: wordBoundary_def Let_def substring_length)
qed

lemma wordBoundary_left:
  assumes "q \<le> length s" "p = 0 \<or> wordBoundary s p" "wordBoundary (substring s p q) 0"
  shows "wordBoundary s p"
proof (cases "p = 0")
  case True
  from assms(3) have "0 < q - p" "isWordChar (substring s p q ! 0)"
    using assms(1) by (auto simp: wordBoundary_def Let_def substring_length)
  then show ?thesis
    using True assms(1) substring_nth[OF assms(1), of 0 p]
    by (auto simp: wordBoundary_def Let_def)
next
  case False
  then show ?thesis using assms(2) by simp
qed

lemma wordBoundary_right:
  assumes "p \<le> q" "q \<le> length s" "q = length s \<or> wordBoundary s q"
    "wordBoundary (substring s p q) (q - p)"
  shows "wordBoundary s q"
proof (cases "q = length s")
  case True
  from assms(4) have "0 < q - p" "isWordChar (substring s p q ! (q - p - 1))"
    using assms(2) by (auto simp: wordBoundary_def Let_def substring_length)
  then show ?thesis
    using True assms(1) substring_nth[OF assms(2), of "q - p - 1" p]
    by (auto simp: wordBoundary_def Let_def)
next
  case False
  then show ?thesis using assms(3) by simp
qed

lemma isolated_match:
  assumes ne: "\<forall>kw \<in> set kws. kw \<noteq> []"
    and pq: "p \<le> q" "q \<le> length s"
    and l: "p = 0 \<or> wordBoundary s p" and r: "q = length s \<or> wordBoundary s q"
    and m: "match_nodes U (keywordRegex kws) (substring s p q) i \<noteq> []"
  shows "match_nodes U (keywordRegex kws) s (p + i) \<noteq> [] \<and> p + i < q"
proof -
  from m obtain kw where kw: "kw \<in> set kws" and w: "whole_word_at U kw (substring s p q) i"
    unfolding keyword_match_iff by blast
  have kne: "kw \<noteq> []" using ne kw by blast
  then have len: "0 < length kw" by (cases kw) simp_all
  from w have oc: "occurs_at U kw (substring s p q) i"
    and b1: "wordBoundary (substring s p q) i"
    and b2: "wordBoundary (substring s p q) (i + length kw)"
    by (simp_all add: whole_word_at_def)
  note o = occurs_at_substring[OF oc kne pq(2)]
  have lt: "p + i < q" using o(2) len by linarith
  have w1: "wordBoundary s (p + i)"
  proof (cases "i = 0")
    case True
    then show ?thesis using wordBoundary_left[OF pq(2) l] b1 by simp
  next
    case False
    then show ?thesis
      using wordBoundary_inner[OF pq(2), of i p] b1 o(2) len by simp
  qed
  have w2: "wordBoundary s (p + i + length kw)"
  proof (cases "i + length kw = q - p")
    case True
    then have "p + i + length kw = q" using pq(1) by simp
    then show ?thesis using wordBoundary_right[OF pq r] b2 True by simp
  next
    case False
    then have "i + length kw < q - p" using o(2) by simp
    then show ?thesis
      using wordBoundary_inner[OF pq(2), of "i + length kw" p] b2 len by (simp add: add.assoc)
  qed
  have "whole_word_at U kw s (p + i)" using o(1) w1 w2 by (simp add: whole_word_at_def)
  then show ?thesis using kw lt unfolding keyword_match_iff by blast
qed

lemma split_loop_shape:
  assumes ne: "\<forall>kw \<in> set kws. kw \<noteq> []"
  shows "p \<le> q \<Longrightarrow> q \<le> length s \<Longrightarrow> p = 0 \<or> wordBoundary s p \<Longrightarrow>
         (\<forall>j. p \<le> j \<and> j < q \<longrightarrow> match_nodes U (keywordRegex kws) s j = []) \<Longrightarrow>
         split_shape U kws s p (String_split_loop U (keywordRegex kws) s p q)"
proof (induction U "keywordRegex kws" s p q rule: String_split_loop.induct)
  case (1 U s p q)
  note pq = "1.prems"(1,2) and l = "1.prems"(3) and none = "1.prems"(4)
  have plain: "\<forall>i \<le> length (substring s p q'). match_nodes U (keywordRegex kws) (substring s p q') i = []"
    if q': "q \<le> q'" "q' \<le> length s" "q' = length s \<or> wordBoundary s q'"
      and n': "\<forall>j. p \<le> j \<and> j < q' \<longrightarrow> match_nodes U (keywordRegex kws) s j = []" for q'
  proof (intro allI impI, rule ccontr)
    fix i
    assume "match_nodes U (keywordRegex kws) (substring s p q') i \<noteq> []"
    from isolated_match[OF ne _ q'(2) l q'(3) this] pq(1) q'(1)
    have "match_nodes U (keywordRegex kws) s (p + i) \<noteq> []" "p + i < q'" by simp_all
    with n' show False by simp
  qed
  show ?case
  proof (cases "q < length s")
    case False
    then have q: "q = length s" using pq(2) by simp
    have "String_split_loop U (keywordRegex kws) s p q = [substring s p (length s)]"
      using False by (subst String_split_loop.simps) simp
    then show ?thesis using plain[of q] none q by simp
  next
    case True
    show ?thesis
    proof (cases "match_nodes U (keywordRegex kws) s q")
      case Nil
      have n': "\<forall>j. p \<le> j \<and> j < q + 1 \<longrightarrow> match_nodes U (keywordRegex kws) s j = []"
        using none Nil by (auto simp: less_Suc_eq)
      have "split_shape U kws s p (String_split_loop U (keywordRegex kws) s p (q + 1))"
        using "1.hyps"(1)[OF True Nil _ _ l n'] pq True by simp
      moreover have "String_split_loop U (keywordRegex kws) s p q
                       = String_split_loop U (keywordRegex kws) s p (q + 1)"
        using True Nil by (subst String_split_loop.simps) simp
      ultimately show ?thesis by simp
    next
      case (Cons x rest)
      obtain e' caps where x: "x = (e', caps)" by (cases x)
      from keyword_match[OF Cons[unfolded x]] obtain kw where
        kw: "kw \<in> set kws" "e' = q + length kw" "occurs_at U kw s q" "wordBoundary s q"
          "wordBoundary s e'" "caps = [substring s q e']"
        by blast
      have kne: "kw \<noteq> []" using ne kw(1) by blast
      then have len: "0 < length kw" by (cases kw) simp_all
      have le: "e' \<le> length s" using occurs_at_bound[OF kw(3) kne] kw(2) by simp
      then have m: "min e' (length s) = e'" by simp
      have nep: "e' \<noteq> p" using kw(2) len pq(1) by linarith
      have v: "\<forall>j. e' \<le> j \<and> j < e' \<longrightarrow> match_nodes U (keywordRegex kws) s j = []"
        by auto
      have ih: "split_shape U kws s e' (String_split_loop U (keywordRegex kws) s e' e')"
        using "1.hyps"(3)[OF True Cons x[symmetric] m[symmetric] nep order_refl le _ v] kw(5)
        by simp
      have eq: "String_split_loop U (keywordRegex kws) s p q
                  = substring s p q # substring s q e' # String_split_loop U (keywordRegex kws) s e' e'"
        using True Cons x m nep kw(6) by (subst String_split_loop.simps) simp
      have a: "\<forall>i \<le> length (substring s p q). match_nodes U (keywordRegex kws) (substring s p q) i = []"
        using plain[of q] pq(2) kw(4) none by simp
      have lens: "length (substring s p q) = q - p" "length (substring s q e') = length kw"
        using pq(2) le kw(2) by (simp_all add: substring_length)
      have b: "\<exists>k \<in> set kws. length (substring s q e') = length k \<and>
                 whole_word_at U k s (p + length (substring s p q))"
        using kw pq(1) lens by (auto simp: whole_word_at_def)
      have c: "p + length (substring s p q) + length (substring s q e') = e'"
        using lens pq(1) kw(2) by simp
      show ?thesis unfolding eq using a b ih c by simp
    qed
  qed
qed

lemma test_global_no_match:
  assumes "\<forall>i \<le> length x. match_nodes U re x i = []"
  shows "RegExp_test_global U re li x = (False, 0)"
proof (cases "search_from U re x li")
  case None
  then show ?thesis by (simp add: RegExp_test_global_def)
next
  case (Some r)
  obtain i e caps where "r = (i, e, caps)" by (cases r)
  with Some search_from_Some[of U re x li i e caps] assms show ?thesis by auto
qed

lemma tag_parts_marks:
  "split_shape U kws s off parts \<Longrightarrow>
   (i, p) \<in> set (marks off (tag_parts U (keywordRegex kws) li parts)) \<Longrightarrow>
   \<exists>kw \<in> set kws. length p = length kw \<and> whole_word_at U kw s i"
proof (induction U kws s off parts arbitrary: li rule: split_shape.induct)
  case (1 U kws s off)
  then show ?case by simp
next
  case (2 U kws s off x)
  then show ?case by (simp add: test_global_no_match)
next
  case (3 U kws s off x m rest)
  from "3.prems"(1) have
    nx: "\<forall>i \<le> length x. match_nodes U (keywordRegex kws) x i = []"
    and km: "\<exists>kw \<in> set kws. length m = length kw \<and> whole_word_at U kw s (off + length x)"
    and sh: "split_shape U kws s (off + length x + length m) rest"
    by simp_all
  let ?t = "RegExp_test_global U (keywordRegex kws) 0 m"
  have tp: "tag_parts U (keywordRegex kws) li (x # m # rest) =
              Plain x # (if fst ?t then Mark m else Plain m)
                # tag_parts U (keywordRegex kws) (snd ?t) rest"
    by (simp add: test_global_no_match[OF nx] case_prod_beta)
  show ?case
  proof (cases "(i, p) \<in> set (marks (off + length x + length m)
                                   (tag_parts U (keywordRegex kws) (snd ?t) rest))")
    case True
    from "3.IH"[OF sh True] show ?thesis .
  next
    case False
    with "3.prems"(2) have "i = off + length x" "p = m"
      unfolding tp by (auto split: if_splits)
    with km show ?thesis by auto
  qed
qed

lemma highlight_Mark:
  assumes "highlightKeywords U kws text = Some segs" and "Mark p \<in> set segs"
  shows "\<exists>kw \<in> set kws. \<exists>i \<le> length p. whole_word_at U kw p i"
proof (cases "kws = [] \<or> text = []")
  case True
  with assms show ?thesis by (auto simp: highlightKeywords_def)
next
  case False
  with assms(1) have "segs = tag_parts U (keywordRegex kws) 0 (String_split U (keywordRegex kws) text)"
    by (simp add: highlightKeywords_def RegExp_new_keywordPattern)
  with assms(2) obtain i e caps rest where
    i: "i \<le> length p" and mt: "match_nodes U (keywordRegex kws) p i = (e, caps) # rest"
    using tag_parts_Mark by blast
  from keyword_match[OF mt] i show ?thesis by (auto simp: whole_word_at_def)
qed

lemma highlight_marks_boundaries:
  assumes "\<forall>kw \<in> set kws. kw \<noteq> []"
    and "highlightKeywords U kws text = Some segs" and "(i, p) \<in> set (marks 0 segs)"
  shows "\<exists>kw \<in> set kws. length p = length kw \<and> whole_word_at U kw text i"
proof (cases "kws = [] \<or> text = []")
  case True
  with assms(2,3) show ?thesis by (auto simp: highlightKeywords_def)
next
  case False
  from False assms(2) have
    segs: "segs = tag_parts U (keywordRegex kws) 0 (String_split U (keywordRegex kws) text)"
    by (simp add: highlightKeywords_def RegExp_new_keywordPattern)
  have "split_shape U kws text 0 (String_split U (keywordRegex kws) text)"
    unfolding String_split_def by (rule split_loop_shape[OF assms(1)]) simp_all
  from tag_parts_marks[OF this assms(3)[unfolded segs]] show ?thesis .
qed

lemma highlight_marks:
  assumes "\<forall>kw \<in> set kws. word_edged kw" and "list_all isASCII text"
    and "highlightKeywords U kws text = Some segs" and "(i, p) \<in> set (marks 0 segs)"
  shows "\<exists>kw \<in> set kws. length p = length kw \<and> isolated_at U kw text i"
proof -
  have ne: "\<forall>kw \<in> set kws. kw \<noteq> []" using assms(1) by (auto simp: word_edged_def)
  from highlight_marks_boundaries[OF ne assms(3,4)] obtain kw where
    "kw \<in> set kws" "length p = length kw" "whole_word_at U kw text i" by blast
  then show ?thesis using assms(1,2) whole_word_at_iff_isolated[of kw "text" U i] by auto
qed

text \<open>
  The word boundary of the pattern knows the ASCII word characters only. With a letter
  outside ASCII in the tables, the \<^verbatim>\<open>dia\<close> at the end of a word in which that letter
  comes before it is tagged by the highlighter and found by the skill loops, and is no
  whole word.
\<close>

lemma accent_example:
  "highlightKeywords accent_tables [str ''dia''] (str ''m'' @ 233 # str ''dia'')
     = Some [Plain (str ''m'' @ [233]), Mark (str ''dia''), Plain []] \<and>
   RegExp_test accent_tables (skillRegex (str ''dia''))
     (toLowerCase accent_tables (str ''M'' @ 201 # str ''DIA'')) \<and>
   \<not> spec_whole_word_occurs accent_tables (str ''dia'') (str ''m'' @ 233 # str ''dia'') \<and>
   \<not> spec_whole_word_occurs accent_tables (str ''dia'') (str ''M'' @ 201 # str ''DIA'')"
  by code_simp


end
